theory Spec2Isabelle
  imports Complex_Main
begin

section \<open>The numpy primitives the notebooks call\<close>

text \<open>
  The notebooks \<^verbatim>\<open>0207_UCB_Bandit\<close> and \<^verbatim>\<open>0208_Gradient_Bandit\<close> compute on
  one-dimensional float arrays. An array is a list of reals here: arithmetic is exact, so
  rounding, overflow and NaN of IEEE doubles are outside these definitions; a later section
  restates the code over an arbitrary arithmetic, that of the doubles included. Every
  exception the code can raise is a value of \<open>error\<close>.
\<close>

datatype error = ValueError | IndexError

text \<open>\<^verbatim>\<open>np.zeros(n)\<close>: raises ValueError on a negative dimension.\<close>

definition np_zeros :: "int \<Rightarrow> error + real list" where
  "np_zeros n = (if n < 0 then Inl ValueError else Inr (replicate (nat n) 0))"

text \<open>\<^verbatim>\<open>arr.max()\<close> and \<^verbatim>\<open>np.max(arr)\<close>: raise ValueError on an empty array.\<close>

fun arr_max :: "real list \<Rightarrow> error + real" where
  "arr_max [] = Inl ValueError"
| "arr_max (x # xs) = Inr (fold max xs x)"

text \<open>\<^verbatim>\<open>np.flatnonzero(mask)\<close>: the indices of the true entries, ascending.\<close>

definition flatnonzero :: "bool list \<Rightarrow> nat list" where
  "flatnonzero bs = filter (\<lambda>i. bs ! i) [0..<length bs]"

text \<open>
  The process-wide random generator is an explicit argument: every call that consumes
  randomness takes its draw \<open>d\<close>, a natural number. \<^verbatim>\<open>np.random.randint(n)\<close> maps the
  draw to \<open>d mod n\<close> (and raises ValueError when \<open>n = 0\<close>), \<^verbatim>\<open>np.random.rand()\<close>
  maps it to a double of 53 random bits in \<open>[0, 1)\<close>.
\<close>

definition randint :: "nat \<Rightarrow> nat \<Rightarrow> error + nat" where
  "randint n d = (if n = 0 then Inl ValueError else Inr (d mod n))"

definition rand :: "nat \<Rightarrow> real" where
  "rand d = real (d mod 2 ^ 53) / 2 ^ 53"

text \<open>
  \<^verbatim>\<open>np.random.choice(a)\<close> without probabilities: one uniform position of \<open>a\<close>;
  ValueError when \<open>a\<close> is empty.
\<close>

definition random_choice :: "nat list \<Rightarrow> nat \<Rightarrow> error + nat" where
  "random_choice a d =
     (case randint (length a) d of Inl e \<Rightarrow> Inl e | Inr i \<Rightarrow> Inr (a ! i))"

section \<open>Tie-breaking argmax\<close>

text \<open>
  \<^verbatim>\<open>
  def argmax_rand(arr):
      # break ties randomly, np.argmax() always picks first max
      return np.random.choice(np.flatnonzero(arr == arr.max()))
  \<close>
\<close>

definition argmax_rand :: "real list \<Rightarrow> nat \<Rightarrow> error + nat" where
  "argmax_rand arr d =
     (case arr_max arr of
        Inl e \<Rightarrow> Inl e
      | Inr m \<Rightarrow> random_choice (flatnonzero (map (\<lambda>x. x = m) arr)) d)"

section \<open>The environment and the loops\<close>

text \<open>
  The environment is the collaborator the selectors consume: \<^verbatim>\<open>env.size\<close> and
  \<^verbatim>\<open>env.step(action)\<close>. Its rewards are random, so \<open>reward e n a\<close> is the reward
  the \<open>n\<close>-th call of \<^verbatim>\<open>step\<close> (counted from 0) returns for action \<open>a\<close>: any
  sequence of observations is some \<open>reward\<close>. The notebooks' \<^verbatim>\<open>BanditEnv\<close> has
  \<^verbatim>\<open>size = 10\<close> and Gaussian rewards; the selectors read nothing else of it, and
  \<open>size_env\<close> is any integer here. The calls made so far are logged in the field
  \<open>calls\<close> of the running state, which outlives an exception.
\<close>

record env =
  size_env :: int
  reward :: "nat \<Rightarrow> nat \<Rightarrow> real"

definition step :: "env \<Rightarrow> nat \<Rightarrow> nat list \<Rightarrow> real \<times> nat list" where
  "step e a cs = (reward e (length cs) a, cs @ [a])"

record run =
  hist_A :: "nat list"
  hist_R :: "real list"
  calls :: "nat list"

text \<open>
  The local variables of \<^verbatim>\<open>ucb_bandit\<close> and \<^verbatim>\<open>simple_bandit\<close>. \<open>N\<close> is an array
  of floats in the source (\<^verbatim>\<open>np.zeros\<close>), holding counts.
\<close>

record bandit = run +
  Q :: "real list"
  N :: "real list"

text \<open>
  The local variables of \<^verbatim>\<open>gradient_bandit\<close>; \<open>R_bar\<close> and \<open>N_bar\<close> are the
  source's \<^verbatim>\<open>R_\<close> and \<^verbatim>\<open>N_\<close>.
\<close>

record grad = run +
  H :: "real list"
  R_bar :: real
  N_bar :: real

text \<open>
  \<^verbatim>\<open>range(lo, hi)\<close> for \<open>0 \<le> lo\<close>, the only way the loops call it (\<^verbatim>\<open>np.zeros\<close>
  has raised before on a negative \<^verbatim>\<open>env.size\<close>); empty when \<open>hi \<le> lo\<close>.
\<close>

definition py_range :: "int \<Rightarrow> int \<Rightarrow> nat list" where
  "py_range lo hi = [nat lo ..< nat hi]"

text \<open>
  A \<^verbatim>\<open>for\<close> loop whose body may raise: the body returns the raised error, if any,
  with the state at that point, and the loop stops there.
\<close>

fun for_loop :: "('i \<Rightarrow> 's \<Rightarrow> error option \<times> 's) \<Rightarrow> 'i list \<Rightarrow> 's \<Rightarrow> error option \<times> 's" where
  "for_loop body [] s = (None, s)"
| "for_loop body (i # is) s =
     (case body i s of
        (Some err, s') \<Rightarrow> (Some err, s')
      | (None, s') \<Rightarrow> for_loop body is s')"

section \<open>UCB bandit and the epsilon-greedy baseline\<close>

text \<open>
  The five lines every loop of \<^verbatim>\<open>0207_UCB_Bandit\<close> repeats once the action is chosen:
  \<^verbatim>\<open>
        R = env.step(A)
        N[A] += 1
        Q[A] += (1/N[A]) * (R - Q[A])

        hist_A.append(A)
        hist_R.append(R)
  \<close>
  Indexing past the end of an array raises IndexError, after the call of \<^verbatim>\<open>env.step\<close>.
\<close>

definition observe :: "env \<Rightarrow> nat \<Rightarrow> bandit \<Rightarrow> error option \<times> bandit" where
  "observe e A s =
     (let (R, cs) = step e A (calls s);
          s1 = s\<lparr>calls := cs\<rparr>
      in if A < length (N s1) \<and> A < length (Q s1) then
           (let N' = (N s1)[A := N s1 ! A + 1];
                Q' = (Q s1)[A := Q s1 ! A + (1 / N' ! A) * (R - Q s1 ! A)]
            in (None, s1\<lparr>hist_A := hist_A s1 @ [A], hist_R := hist_R s1 @ [R],
                         Q := Q', N := N'\<rparr>))
         else (Some IndexError, s1))"

definition init_bandit :: "real list \<Rightarrow> real list \<Rightarrow> bandit" where
  "init_bandit Q0 N0 = \<lparr>hist_A = [], hist_R = [], calls = [], Q = Q0, N = N0\<rparr>"

text \<open>
  \<^verbatim>\<open>Q + c * np.sqrt( np.log(t) / N )\<close>, elementwise. The model is exact where
  \<open>1 \<le> t\<close> and every \<open>N[a]\<close> is positive, which the warm-up loop establishes before the
  first evaluation.
\<close>

definition ucb_scores :: "real \<Rightarrow> nat \<Rightarrow> bandit \<Rightarrow> real list" where
  "ucb_scores c t s = map2 (\<lambda>q n. q + c * sqrt (ln (real t) / n)) (Q s) (N s)"

text \<open>The body of the second loop of \<^verbatim>\<open>ucb_bandit\<close>; \<open>rnd t\<close> is the draw of step \<open>t\<close>.\<close>

definition ucb_step :: "env \<Rightarrow> real \<Rightarrow> (nat \<Rightarrow> nat) \<Rightarrow> nat \<Rightarrow> bandit \<Rightarrow> error option \<times> bandit" where
  "ucb_step e c rnd t s =
     (case argmax_rand (ucb_scores c t s) (rnd t) of
        Inl err \<Rightarrow> (Some err, s)
      | Inr A \<Rightarrow> observe e A s)"

text \<open>
  \<^verbatim>\<open>
  def ucb_bandit(env, nb, c):
      Q = np.zeros(env.size)
      N = np.zeros(env.size)
      hist_A = []
      hist_R = []
      # select each action at lest once
      for A in range(env.size):
          ...
      for t in range(env.size, nb):
          A = argmax_rand( Q + c * np.sqrt( np.log(t) / N ) )
          ...
      return Q, np.array(hist_A), np.array(hist_R)
  \<close>
  The result is paired with the log of the calls of \<^verbatim>\<open>env.step\<close>.
\<close>

definition ucb_bandit ::
  "env \<Rightarrow> int \<Rightarrow> real \<Rightarrow> (nat \<Rightarrow> nat) \<Rightarrow> (error + real list \<times> nat list \<times> real list) \<times> nat list" where
  "ucb_bandit e nb c rnd =
     (case np_zeros (size_env e) of
        Inl err \<Rightarrow> (Inl err, [])
      | Inr Q0 \<Rightarrow>
     (case np_zeros (size_env e) of
        Inl err \<Rightarrow> (Inl err, [])
      | Inr N0 \<Rightarrow>
     (case for_loop (observe e) (py_range 0 (size_env e)) (init_bandit Q0 N0) of
        (Some err, s1) \<Rightarrow> (Inl err, calls s1)
      | (None, s1) \<Rightarrow>
     (case for_loop (ucb_step e c rnd) (py_range (size_env e) nb) s1 of
        (Some err, s2) \<Rightarrow> (Inl err, calls s2)
      | (None, s2) \<Rightarrow> (Inr (Q s2, hist_A s2, hist_R s2), calls s2)))))"

text \<open>
  The state of a run of \<^verbatim>\<open>ucb_bandit\<close> after its first \<open>t\<close> loop iterations (both
  loops counted), for \<open>0 \<le> env.size\<close>: the same two loops, cut after \<open>t\<close> iterations.
\<close>

definition ucb_after :: "env \<Rightarrow> int \<Rightarrow> real \<Rightarrow> (nat \<Rightarrow> nat) \<Rightarrow> nat \<Rightarrow> error option \<times> bandit" where
  "ucb_after e nb c rnd t =
     (let z = replicate (nat (size_env e)) 0 in
      case for_loop (observe e) (take t (py_range 0 (size_env e))) (init_bandit z z) of
        (Some err, s1) \<Rightarrow> (Some err, s1)
      | (None, s1) \<Rightarrow>
          for_loop (ucb_step e c rnd) (take (t - nat (size_env e)) (py_range (size_env e) nb)) s1)"

text \<open>
  \<^verbatim>\<open>
  def simple_bandit(env, nb, eps):
      Q = np.zeros(env.size)
      N = np.zeros(env.size)
      hist_A = []
      hist_R = []
      for _ in range(nb):
          A = argmax_rand(Q) if np.random.rand() > eps else np.random.randint(env.size)
          ...
      return Q, np.array(hist_A), np.array(hist_R)
  \<close>
  Step \<open>t\<close> draws \<open>coin t\<close> for \<^verbatim>\<open>rand()\<close>, then \<open>rnd t\<close> for the action.
\<close>

definition simple_step ::
  "env \<Rightarrow> real \<Rightarrow> (nat \<Rightarrow> nat) \<Rightarrow> (nat \<Rightarrow> nat) \<Rightarrow> nat \<Rightarrow> bandit \<Rightarrow> error option \<times> bandit" where
  "simple_step e eps coin rnd t s =
     (case (if rand (coin t) > eps then argmax_rand (Q s) (rnd t)
            else randint (nat (size_env e)) (rnd t)) of
        Inl err \<Rightarrow> (Some err, s)
      | Inr A \<Rightarrow> observe e A s)"

definition simple_bandit ::
  "env \<Rightarrow> int \<Rightarrow> real \<Rightarrow> (nat \<Rightarrow> nat) \<Rightarrow> (nat \<Rightarrow> nat)
     \<Rightarrow> (error + real list \<times> nat list \<times> real list) \<times> nat list" where
  "simple_bandit e nb eps coin rnd =
     (case np_zeros (size_env e) of
        Inl err \<Rightarrow> (Inl err, [])
      | Inr Q0 \<Rightarrow>
     (case np_zeros (size_env e) of
        Inl err \<Rightarrow> (Inl err, [])
      | Inr N0 \<Rightarrow>
     (case for_loop (simple_step e eps coin rnd) (py_range 0 nb) (init_bandit Q0 N0) of
        (Some err, s1) \<Rightarrow> (Inl err, calls s1)
      | (None, s1) \<Rightarrow> (Inr (Q s1, hist_A s1, hist_R s1), calls s1))))"

definition simple_after ::
  "env \<Rightarrow> int \<Rightarrow> real \<Rightarrow> (nat \<Rightarrow> nat) \<Rightarrow> (nat \<Rightarrow> nat) \<Rightarrow> nat \<Rightarrow> error option \<times> bandit" where
  "simple_after e nb eps coin rnd t =
     (let z = replicate (nat (size_env e)) 0 in
      for_loop (simple_step e eps coin rnd) (take t (py_range 0 nb)) (init_bandit z z))"

text \<open>
  The rewards a history records for action \<open>a\<close>, and the arithmetic mean, which is 0
  for no observation.
\<close>

definition rewards_of :: "nat \<Rightarrow> nat list \<Rightarrow> real list \<Rightarrow> real list" where
  "rewards_of a as rs = map snd (filter (\<lambda>p. fst p = a) (zip as rs))"

definition mean :: "real list \<Rightarrow> real" where
  "mean rs = (if rs = [] then 0 else sum_list rs / real (length rs))"

text \<open>
  The loop invariant of both selectors of \<^verbatim>\<open>0207_UCB_Bandit\<close>, for \<open>k\<close> actions:
  each count is the number of rewards recorded for its action, each estimate their mean,
  and the counts add up to the number of steps.
\<close>

definition mean_inv :: "nat \<Rightarrow> bandit \<Rightarrow> bool" where
  "mean_inv k s \<longleftrightarrow>
     length (Q s) = k \<and> length (N s) = k \<and> length (hist_A s) = length (hist_R s)
     \<and> (\<forall>a<length (Q s).
           N s ! a = real (length (rewards_of a (hist_A s) (hist_R s)))
           \<and> Q s ! a = mean (rewards_of a (hist_A s) (hist_R s)))
     \<and> sum_list (N s) = real (length (hist_A s))"

text \<open>
  What holds in addition from the end of the warm-up loop of \<^verbatim>\<open>ucb_bandit\<close> on:
  every count is at least 1, every call of \<^verbatim>\<open>env.step\<close> is in the history, and the
  history starts with the warm-up.
\<close>

definition bound_inv :: "nat \<Rightarrow> bandit \<Rightarrow> bool" where
  "bound_inv k s \<longleftrightarrow>
     mean_inv k s \<and> list_all (\<lambda>n. 1 \<le> n) (N s) \<and> calls s = hist_A s
     \<and> take k (hist_A s) = [0..<k]"

section \<open>Gradient bandit\<close>

text \<open>
  \<^verbatim>\<open>
  def softmax(x):
      """Numerically stable softmax"""
      ex = np.exp(x - np.max(x))
      return ex / np.sum(ex)
  \<close>
\<close>

definition softmax :: "real list \<Rightarrow> error + real list" where
  "softmax x =
     (case arr_max x of
        Inl err \<Rightarrow> Inl err
      | Inr m \<Rightarrow>
          (let ex = map (\<lambda>v. exp (v - m)) x
           in Inr (map (\<lambda>v. v / sum_list ex) ex)))"

text \<open>
  \<^verbatim>\<open>np.random.choice(range(n), p=p)\<close>: ValueError when there is nothing to choose
  from, when \<open>p\<close> has another length, a negative entry or a sum further from 1 than
  the square root of the machine epsilon; otherwise the cumulative sums of \<open>p\<close> are
  normalised by the last one and the result is the insertion point, on the right, of one
  uniform sample of \<open>[0, 1)\<close>: the number of cumulative sums that do not exceed it.
\<close>

fun cumsum :: "real \<Rightarrow> real list \<Rightarrow> real list" where
  "cumsum acc [] = []"
| "cumsum acc (x # xs) = (acc + x) # cumsum (acc + x) xs"

definition searchsorted_right :: "real list \<Rightarrow> real \<Rightarrow> nat" where
  "searchsorted_right cdf u = length (filter (\<lambda>c. c \<le> u) cdf)"

definition choice_p :: "nat \<Rightarrow> real list \<Rightarrow> nat \<Rightarrow> error + nat" where
  "choice_p n p d =
     (if n = 0 \<or> length p \<noteq> n \<or> list_ex (\<lambda>x. x < 0) p \<or> \<bar>sum_list p - 1\<bar> > 1 / 2 ^ 26
      then Inl ValueError
      else (let cdf = cumsum 0 p;
                cdf = map (\<lambda>c. c / last cdf) cdf
            in Inr (searchsorted_right cdf (rand d))))"

text \<open>
  The body of the loop of \<^verbatim>\<open>gradient_bandit\<close>:
  \<^verbatim>\<open>
        pi = softmax(H)
        A = np.random.choice(range(env.size), p=pi)
        R = env.step(A)

        H_new = H - alpha*(R-R_)*pi               # for all a =/= A
        H_new[A] = H[A] + alpha*(R-R_)*(1-pi[A])  # for a == A
        H = H_new

        if baseline:
            N_ += 1
            R_ += 1/N_ * (R-R_)

        hist_A.append(A)
        hist_R.append(R)
  \<close>
\<close>

definition gradient_step ::
  "env \<Rightarrow> real \<Rightarrow> bool \<Rightarrow> (nat \<Rightarrow> nat) \<Rightarrow> nat \<Rightarrow> grad \<Rightarrow> error option \<times> grad" where
  "gradient_step e alpha baseline rnd t s =
     (case softmax (H s) of
        Inl err \<Rightarrow> (Some err, s)
      | Inr ps \<Rightarrow>
     (case choice_p (nat (size_env e)) ps (rnd t) of
        Inl err \<Rightarrow> (Some err, s)
      | Inr A \<Rightarrow>
          (let (R, cs) = step e A (calls s);
               s1 = s\<lparr>calls := cs\<rparr>;
               H_new = map2 (\<lambda>h p. h - alpha * (R - R_bar s1) * p) (H s1) ps
           in if A < length H_new \<and> A < length (H s1) \<and> A < length ps then
                (let H_new = H_new[A := H s1 ! A + alpha * (R - R_bar s1) * (1 - ps ! A)];
                     s2 = s1\<lparr>H := H_new\<rparr>;
                     s3 = (if baseline then
                             (let n = N_bar s2 + 1
                              in s2\<lparr>R_bar := R_bar s2 + 1 / n * (R - R_bar s2), N_bar := n\<rparr>)
                           else s2)
                 in (None, s3\<lparr>hist_A := hist_A s3 @ [A], hist_R := hist_R s3 @ [R]\<rparr>))
              else (Some IndexError, s1))))"

definition init_grad :: "real list \<Rightarrow> grad" where
  "init_grad H0 = \<lparr>hist_A = [], hist_R = [], calls = [], H = H0, R_bar = 0, N_bar = 0\<rparr>"

text \<open>
  \<^verbatim>\<open>
  def gradient_bandit(env, nb, alpha, baseline):
      H = np.zeros(env.size)
      R_, N_ = 0.0, 0.0
      hist_A = []
      hist_R = []
      for _ in range(nb):
          ...
      return H, np.array(hist_A), np.array(hist_R)
  \<close>
\<close>

definition gradient_bandit ::
  "env \<Rightarrow> int \<Rightarrow> real \<Rightarrow> bool \<Rightarrow> (nat \<Rightarrow> nat)
     \<Rightarrow> (error + real list \<times> nat list \<times> real list) \<times> nat list" where
  "gradient_bandit e nb alpha baseline rnd =
     (case np_zeros (size_env e) of
        Inl err \<Rightarrow> (Inl err, [])
      | Inr H0 \<Rightarrow>
     (case for_loop (gradient_step e alpha baseline rnd) (py_range 0 nb) (init_grad H0) of
        (Some err, s1) \<Rightarrow> (Inl err, calls s1)
      | (None, s1) \<Rightarrow> (Inr (H s1, hist_A s1, hist_R s1), calls s1)))"

text \<open>The state of a run of \<^verbatim>\<open>gradient_bandit\<close> after its first \<open>t\<close> iterations.\<close>

definition gradient_after ::
  "env \<Rightarrow> int \<Rightarrow> real \<Rightarrow> bool \<Rightarrow> (nat \<Rightarrow> nat) \<Rightarrow> nat \<Rightarrow> error option \<times> grad" where
  "gradient_after e nb alpha baseline rnd t =
     for_loop (gradient_step e alpha baseline rnd) (take t (py_range 0 nb))
       (init_grad (replicate (nat (size_env e)) 0))"

text \<open>
  The loop invariant of \<^verbatim>\<open>gradient_bandit\<close> (the preferences add up to 0, the
  baseline is the mean of the recorded rewards or stays 0), and what holds in addition while
  no exception is raised.
\<close>

definition grad_inv :: "bool \<Rightarrow> grad \<Rightarrow> bool" where
  "grad_inv baseline s \<longleftrightarrow>
     sum_list (H s) = 0
     \<and> (if baseline then N_bar s = real (length (hist_R s)) \<and> R_bar s = mean (hist_R s)
         else N_bar s = 0 \<and> R_bar s = 0)"

definition grad_run :: "nat \<Rightarrow> grad \<Rightarrow> bool" where
  "grad_run k s \<longleftrightarrow>
     length (H s) = k \<and> calls s = hist_A s \<and> length (hist_A s) = length (hist_R s)"

section \<open>A deterministic environment\<close>

text \<open>
  Two actions; \<^verbatim>\<open>step(0)\<close> always returns 1 and \<^verbatim>\<open>step(1)\<close> always returns 0. The
  random source \<open>first_draw\<close> always draws 0.
\<close>

definition stub_env :: env where
  "stub_env = \<lparr>size_env = 2, reward = (\<lambda>n a. if a = 0 then 1 else 0)\<rparr>"

definition first_draw :: "nat \<Rightarrow> nat" where
  "first_draw t = 0"

text \<open>
  A second deterministic environment, whose rewards grow with the number of the call:
  the \<open>n\<close>-th call of \<^verbatim>\<open>env.step\<close> (counted from 0) returns \<open>n + 1\<close>.
\<close>

definition ramp_env :: env where
  "ramp_env = \<lparr>size_env = 2, reward = (\<lambda>n a. real n + 1)\<rparr>"

section \<open>Histories and the calls of the environment\<close>




section \<open>The programs over an arbitrary arithmetic\<close>

text \<open>
  The definitions above compute with real numbers, the notebooks with IEEE doubles. This
  section restates the same code with the arithmetic of the array elements as a parameter:
  a record of the operations the notebooks apply to floats. \<open>fnat\<close> converts a Python
  \<^verbatim>\<open>int\<close> (the \<open>0\<close> of \<^verbatim>\<open>np.zeros\<close>, the literal \<open>1\<close>, the loop variable \<open>t\<close>),
  \<open>fsum\<close> is \<^verbatim>\<open>np.sum\<close>, a function of the array of its own since the order in
  which numpy adds is numpy's, and \<open>fle\<close> is \<^verbatim>\<open><=\<close>. Two instances follow: \<open>exact\<close>, the reals, at which these
  definitions are those of the previous sections, and \<open>binary64\<close>, the doubles.
\<close>

record 'f arith =
  fnat :: "nat \<Rightarrow> 'f"
  fadd :: "'f \<Rightarrow> 'f \<Rightarrow> 'f"
  fsub :: "'f \<Rightarrow> 'f \<Rightarrow> 'f"
  fmul :: "'f \<Rightarrow> 'f \<Rightarrow> 'f"
  fdiv :: "'f \<Rightarrow> 'f \<Rightarrow> 'f"
  fsqrt :: "'f \<Rightarrow> 'f"
  flog :: "'f \<Rightarrow> 'f"
  fexp :: "'f \<Rightarrow> 'f"
  fsum :: "'f list \<Rightarrow> 'f"
  fle :: "'f \<Rightarrow> 'f \<Rightarrow> bool"

text \<open>
  \<^verbatim>\<open>==\<close> and \<^verbatim>\<open><\<close> in terms of \<^verbatim>\<open><=\<close>: on doubles both are false as soon as an
  operand is NaN, which compares with nothing, itself included.
\<close>

definition feq :: "'f arith \<Rightarrow> 'f \<Rightarrow> 'f \<Rightarrow> bool" where
  "feq ar x y \<longleftrightarrow> fle ar x y \<and> fle ar y x"


text \<open>
  The maximum of two elements as \<^verbatim>\<open>np.max\<close> takes it: an operand that does not compare
  with itself (a NaN) is the result.
\<close>

definition fmaximum :: "'f arith \<Rightarrow> 'f \<Rightarrow> 'f \<Rightarrow> 'f" where
  "fmaximum ar a b =
     (if \<not> fle ar a a then a else if \<not> fle ar b b then b else if fle ar a b then b else a)"

definition np_zeros_fp :: "'f arith \<Rightarrow> int \<Rightarrow> error + 'f list" where
  "np_zeros_fp ar n = (if n < 0 then Inl ValueError else Inr (replicate (nat n) (fnat ar 0)))"

fun arr_max_fp :: "'f arith \<Rightarrow> 'f list \<Rightarrow> error + 'f" where
  "arr_max_fp ar [] = Inl ValueError"
| "arr_max_fp ar (x # xs) = Inr (fold (\<lambda>y m. fmaximum ar m y) xs x)"

text \<open>
  \<^verbatim>\<open>np.random.choice(np.flatnonzero(arr == arr.max()))\<close>: when the maximum is a NaN
  the mask is empty and \<^verbatim>\<open>np.random.choice\<close> raises ValueError.
\<close>

definition argmax_rand_fp :: "'f arith \<Rightarrow> 'f list \<Rightarrow> nat \<Rightarrow> error + nat" where
  "argmax_rand_fp ar arr d =
     (case arr_max_fp ar arr of
        Inl e \<Rightarrow> Inl e
      | Inr m \<Rightarrow> random_choice (flatnonzero (map (\<lambda>x. feq ar x m) arr)) d)"

text \<open>The environment, the call of \<^verbatim>\<open>env.step\<close> and the state of the loops, as before.\<close>

record 'f env_fp =
  size_fp :: int
  reward_fp :: "nat \<Rightarrow> nat \<Rightarrow> 'f"

definition step_fp :: "'f env_fp \<Rightarrow> nat \<Rightarrow> nat list \<Rightarrow> 'f \<times> nat list" where
  "step_fp e a cs = (reward_fp e (length cs) a, cs @ [a])"

record 'f run_fp =
  hist_A_fp :: "nat list"
  hist_R_fp :: "'f list"
  calls_fp :: "nat list"

record 'f bandit_fp = "'f run_fp" +
  Q_fp :: "'f list"
  N_fp :: "'f list"

record 'f grad_fp = "'f run_fp" +
  H_fp :: "'f list"
  R_bar_fp :: 'f
  N_bar_fp :: 'f

text \<open>
  \<^verbatim>\<open>
        R = env.step(A)
        N[A] += 1
        Q[A] += (1/N[A]) * (R - Q[A])

        hist_A.append(A)
        hist_R.append(R)
  \<close>
\<close>

definition observe_fp ::
  "'f arith \<Rightarrow> 'f env_fp \<Rightarrow> nat \<Rightarrow> 'f bandit_fp \<Rightarrow> error option \<times> 'f bandit_fp" where
  "observe_fp ar e A s =
     (let (R, cs) = step_fp e A (calls_fp s);
          s1 = s\<lparr>calls_fp := cs\<rparr>
      in if A < length (N_fp s1) \<and> A < length (Q_fp s1) then
           (let N' = (N_fp s1)[A := fadd ar (N_fp s1 ! A) (fnat ar 1)];
                Q' = (Q_fp s1)[A := fadd ar (Q_fp s1 ! A)
                        (fmul ar (fdiv ar (fnat ar 1) (N' ! A)) (fsub ar R (Q_fp s1 ! A)))]
            in (None, s1\<lparr>hist_A_fp := hist_A_fp s1 @ [A], hist_R_fp := hist_R_fp s1 @ [R],
                         Q_fp := Q', N_fp := N'\<rparr>))
         else (Some IndexError, s1))"

definition init_bandit_fp :: "'f list \<Rightarrow> 'f list \<Rightarrow> 'f bandit_fp" where
  "init_bandit_fp Q0 N0 = \<lparr>hist_A_fp = [], hist_R_fp = [], calls_fp = [], Q_fp = Q0, N_fp = N0\<rparr>"

text \<open>\<^verbatim>\<open>Q + c * np.sqrt( np.log(t) / N )\<close>, elementwise, \<open>t\<close> the loop variable.\<close>

definition ucb_scores_fp :: "'f arith \<Rightarrow> 'f \<Rightarrow> nat \<Rightarrow> 'f bandit_fp \<Rightarrow> 'f list" where
  "ucb_scores_fp ar c t s =
     map2 (\<lambda>q n. fadd ar q (fmul ar c (fsqrt ar (fdiv ar (flog ar (fnat ar t)) n))))
       (Q_fp s) (N_fp s)"

definition ucb_step_fp ::
  "'f arith \<Rightarrow> 'f env_fp \<Rightarrow> 'f \<Rightarrow> (nat \<Rightarrow> nat) \<Rightarrow> nat \<Rightarrow> 'f bandit_fp
     \<Rightarrow> error option \<times> 'f bandit_fp" where
  "ucb_step_fp ar e c rnd t s =
     (case argmax_rand_fp ar (ucb_scores_fp ar c t s) (rnd t) of
        Inl err \<Rightarrow> (Some err, s)
      | Inr A \<Rightarrow> observe_fp ar e A s)"

text \<open>
  \<^verbatim>\<open>ucb_bandit(env, nb, c)\<close>: the warm-up loop over \<^verbatim>\<open>range(env.size)\<close>, then the
  loop over \<^verbatim>\<open>range(env.size, nb)\<close>, whose variable \<open>t\<close> is the argument of the
  logarithm.
\<close>

definition ucb_bandit_fp ::
  "'f arith \<Rightarrow> 'f env_fp \<Rightarrow> int \<Rightarrow> 'f \<Rightarrow> (nat \<Rightarrow> nat)
     \<Rightarrow> (error + 'f list \<times> nat list \<times> 'f list) \<times> nat list" where
  "ucb_bandit_fp ar e nb c rnd =
     (case np_zeros_fp ar (size_fp e) of
        Inl err \<Rightarrow> (Inl err, [])
      | Inr Q0 \<Rightarrow>
     (case np_zeros_fp ar (size_fp e) of
        Inl err \<Rightarrow> (Inl err, [])
      | Inr N0 \<Rightarrow>
     (case for_loop (observe_fp ar e) (py_range 0 (size_fp e)) (init_bandit_fp Q0 N0) of
        (Some err, s1) \<Rightarrow> (Inl err, calls_fp s1)
      | (None, s1) \<Rightarrow>
     (case for_loop (ucb_step_fp ar e c rnd) (py_range (size_fp e) nb) s1 of
        (Some err, s2) \<Rightarrow> (Inl err, calls_fp s2)
      | (None, s2) \<Rightarrow> (Inr (Q_fp s2, hist_A_fp s2, hist_R_fp s2), calls_fp s2)))))"

text \<open>The state of a run of \<open>ucb_bandit_fp\<close> after its first \<open>t\<close> loop iterations.\<close>

definition ucb_after_fp ::
  "'f arith \<Rightarrow> 'f env_fp \<Rightarrow> int \<Rightarrow> 'f \<Rightarrow> (nat \<Rightarrow> nat) \<Rightarrow> nat
     \<Rightarrow> error option \<times> 'f bandit_fp" where
  "ucb_after_fp ar e nb c rnd t =
     (let z = replicate (nat (size_fp e)) (fnat ar 0) in
      case for_loop (observe_fp ar e) (take t (py_range 0 (size_fp e))) (init_bandit_fp z z) of
        (Some err, s1) \<Rightarrow> (Some err, s1)
      | (None, s1) \<Rightarrow>
          for_loop (ucb_step_fp ar e c rnd)
            (take (t - nat (size_fp e)) (py_range (size_fp e) nb)) s1)"




text \<open>
  \<^verbatim>\<open>
  def softmax(x):
      """Numerically stable softmax"""
      ex = np.exp(x - np.max(x))
      return ex / np.sum(ex)
  \<close>
\<close>

definition softmax_fp :: "'f arith \<Rightarrow> 'f list \<Rightarrow> error + 'f list" where
  "softmax_fp ar x =
     (case arr_max_fp ar x of
        Inl err \<Rightarrow> Inl err
      | Inr m \<Rightarrow>
          (let ex = map (\<lambda>v. fexp ar (fsub ar v m)) x
           in Inr (map (\<lambda>v. fdiv ar v (fsum ar ex)) ex)))"

text \<open>
  The body of the loop of \<^verbatim>\<open>gradient_bandit\<close>. The sampler
  \<^verbatim>\<open>np.random.choice(range(env.size), p=pi)\<close> is the parameter \<open>choice\<close>, applied to
  \<open>env.size\<close>, \<open>pi\<close> and the draw of the step: what follows holds whatever it does with the
  probabilities, its validation of them included.
\<close>

definition gradient_step_fp ::
  "'f arith \<Rightarrow> (nat \<Rightarrow> 'f list \<Rightarrow> nat \<Rightarrow> error + nat) \<Rightarrow> 'f env_fp \<Rightarrow> 'f \<Rightarrow> bool
     \<Rightarrow> (nat \<Rightarrow> nat) \<Rightarrow> nat \<Rightarrow> 'f grad_fp \<Rightarrow> error option \<times> 'f grad_fp" where
  "gradient_step_fp ar choice e alpha baseline rnd t s =
     (case softmax_fp ar (H_fp s) of
        Inl err \<Rightarrow> (Some err, s)
      | Inr ps \<Rightarrow>
     (case choice (nat (size_fp e)) ps (rnd t) of
        Inl err \<Rightarrow> (Some err, s)
      | Inr A \<Rightarrow>
          (let (R, cs) = step_fp e A (calls_fp s);
               s1 = s\<lparr>calls_fp := cs\<rparr>;
               H_new = map2 (\<lambda>h p. fsub ar h (fmul ar (fmul ar alpha (fsub ar R (R_bar_fp s1))) p))
                         (H_fp s1) ps
           in if A < length H_new \<and> A < length (H_fp s1) \<and> A < length ps then
                (let H_new = H_new[A := fadd ar (H_fp s1 ! A)
                                 (fmul ar (fmul ar alpha (fsub ar R (R_bar_fp s1)))
                                    (fsub ar (fnat ar 1) (ps ! A)))];
                     s2 = s1\<lparr>H_fp := H_new\<rparr>;
                     s3 = (if baseline then
                             (let n = fadd ar (N_bar_fp s2) (fnat ar 1)
                              in s2\<lparr>R_bar_fp := fadd ar (R_bar_fp s2)
                                      (fmul ar (fdiv ar (fnat ar 1) n) (fsub ar R (R_bar_fp s2))),
                                    N_bar_fp := n\<rparr>)
                           else s2)
                 in (None, s3\<lparr>hist_A_fp := hist_A_fp s3 @ [A], hist_R_fp := hist_R_fp s3 @ [R]\<rparr>))
              else (Some IndexError, s1))))"

definition init_grad_fp :: "'f arith \<Rightarrow> 'f list \<Rightarrow> 'f grad_fp" where
  "init_grad_fp ar H0 =
     \<lparr>hist_A_fp = [], hist_R_fp = [], calls_fp = [], H_fp = H0,
      R_bar_fp = fnat ar 0, N_bar_fp = fnat ar 0\<rparr>"

definition gradient_bandit_fp ::
  "'f arith \<Rightarrow> (nat \<Rightarrow> 'f list \<Rightarrow> nat \<Rightarrow> error + nat) \<Rightarrow> 'f env_fp \<Rightarrow> int \<Rightarrow> 'f \<Rightarrow> bool
     \<Rightarrow> (nat \<Rightarrow> nat) \<Rightarrow> (error + 'f list \<times> nat list \<times> 'f list) \<times> nat list" where
  "gradient_bandit_fp ar choice e nb alpha baseline rnd =
     (case np_zeros_fp ar (size_fp e) of
        Inl err \<Rightarrow> (Inl err, [])
      | Inr H0 \<Rightarrow>
     (case for_loop (gradient_step_fp ar choice e alpha baseline rnd) (py_range 0 nb)
             (init_grad_fp ar H0) of
        (Some err, s1) \<Rightarrow> (Inl err, calls_fp s1)
      | (None, s1) \<Rightarrow> (Inr (H_fp s1, hist_A_fp s1, hist_R_fp s1), calls_fp s1)))"

text \<open>The state of a run of \<open>gradient_bandit_fp\<close> after its first \<open>t\<close> iterations.\<close>

definition gradient_after_fp ::
  "'f arith \<Rightarrow> (nat \<Rightarrow> 'f list \<Rightarrow> nat \<Rightarrow> error + nat) \<Rightarrow> 'f env_fp \<Rightarrow> int \<Rightarrow> 'f \<Rightarrow> bool
     \<Rightarrow> (nat \<Rightarrow> nat) \<Rightarrow> nat \<Rightarrow> error option \<times> 'f grad_fp" where
  "gradient_after_fp ar choice e nb alpha baseline rnd t =
     for_loop (gradient_step_fp ar choice e alpha baseline rnd) (take t (py_range 0 nb))
       (init_grad_fp ar (replicate (nat (size_fp e)) (fnat ar 0)))"

text \<open>
  What the comparison of an arithmetic has to satisfy for a maximum to be one: it is
  transitive, total on the elements that compare with themselves, and relates only such
  elements. The reals satisfy it, and so do the doubles, whose NaN compares with nothing.
\<close>

definition total_preorder :: "'f arith \<Rightarrow> bool" where
  "total_preorder ar \<longleftrightarrow>
     (\<forall>x y z. fle ar x y \<and> fle ar y z \<longrightarrow> fle ar x z)
     \<and> (\<forall>x y. fle ar x x \<and> fle ar y y \<longrightarrow> fle ar x y \<or> fle ar y x)
     \<and> (\<forall>x y. fle ar x y \<longrightarrow> fle ar x x \<and> fle ar y y)"

text \<open>Shapes that the loops keep, and the estimates of the actions not selected yet.\<close>

definition shape_fp :: "nat \<Rightarrow> 'f bandit_fp \<Rightarrow> bool" where
  "shape_fp k s \<longleftrightarrow>
     length (Q_fp s) = k \<and> length (N_fp s) = k
     \<and> length (hist_R_fp s) = length (hist_A_fp s) \<and> calls_fp s = hist_A_fp s"

definition gshape_fp :: "nat \<Rightarrow> 'f grad_fp \<Rightarrow> bool" where
  "gshape_fp k s \<longleftrightarrow>
     length (H_fp s) = k \<and> length (hist_R_fp s) = length (hist_A_fp s)
     \<and> calls_fp s = hist_A_fp s"


subsection \<open>Exact arithmetic\<close>

text \<open>
  The reals, and the translation of environments and states to those of the previous
  sections.
\<close>

definition exact :: "real arith" where
  "exact = \<lparr>fnat = real, fadd = (+), fsub = (-), fmul = (*), fdiv = (/), fsqrt = sqrt,
            flog = ln, fexp = exp, fsum = sum_list, fle = (\<le>)\<rparr>"

definition env_of :: "real env_fp \<Rightarrow> env" where
  "env_of e = \<lparr>size_env = size_fp e, reward = reward_fp e\<rparr>"

definition bandit_of :: "real bandit_fp \<Rightarrow> bandit" where
  "bandit_of s = \<lparr>hist_A = hist_A_fp s, hist_R = hist_R_fp s, calls = calls_fp s,
                  Q = Q_fp s, N = N_fp s\<rparr>"

definition grad_of :: "real grad_fp \<Rightarrow> grad" where
  "grad_of s = \<lparr>hist_A = hist_A_fp s, hist_R = hist_R_fp s, calls = calls_fp s,
                H = H_fp s, R_bar = R_bar_fp s, N_bar = N_bar_fp s\<rparr>"

text \<open>Two actions and no reward at all; two actions and the rewards of \<open>ramp_env\<close>.\<close>

definition null_env :: "real env_fp" where
  "null_env = \<lparr>size_fp = 2, reward_fp = (\<lambda>n a. 0)\<rparr>"

definition ramp_env_fp :: "real env_fp" where
  "ramp_env_fp = \<lparr>size_fp = 2, reward_fp = (\<lambda>n a. real n + 1)\<rparr>"

subsection \<open>IEEE 754 double precision\<close>

text \<open>
  A double is a finite number, an infinity or NaN. \<open>fl x\<close> is the finite number nearest to
  the real \<open>x\<close> among the multiples of \<open>2 ^ q\<close>, where \<open>q\<close> is the exponent of \<open>x\<close> less
  the 52 fraction bits and not below that of the subnormal numbers; a tie goes to the even
  multiple (round-to-nearest-even, the rounding mode numpy and Python use). \<open>to_double\<close>
  overflows to an infinity. The two zeros are not told apart.
\<close>

datatype double = Fin real | PInf | NInf | NaN

definition round_even :: "real \<Rightarrow> int" where
  "round_even x =
     (let n = \<lfloor>x\<rfloor> in
      if x - of_int n < 1 / 2 then n
      else if 1 / 2 < x - of_int n then n + 1
      else if even n then n else n + 1)"

definition ulp_exp :: "real \<Rightarrow> int" where
  "ulp_exp x = max \<lfloor>log 2 \<bar>x\<bar>\<rfloor> (- 1022) - 52"

definition fl :: "real \<Rightarrow> real" where
  "fl x = (if x = 0 then 0 else of_int (round_even (x / 2 powi ulp_exp x)) * 2 powi ulp_exp x)"

definition to_double :: "real \<Rightarrow> double" where
  "to_double x =
     (if 2 ^ 1024 \<le> fl x then PInf else if fl x \<le> - (2 ^ 1024) then NInf else Fin (fl x))"

text \<open>
  The operations: on finite operands the exact result, rounded; on the others what
  IEEE 754 prescribes (\<open>inf - inf\<close>, \<open>0 * inf\<close>, \<open>0 / 0\<close> and \<open>inf / inf\<close> are NaN, a
  nonzero number over 0 is an infinity, NaN propagates). Square root, logarithm and
  exponential are taken correctly rounded.
\<close>

fun dneg :: "double \<Rightarrow> double" where
  "dneg (Fin x) = Fin (- x)"
| "dneg PInf = NInf"
| "dneg NInf = PInf"
| "dneg NaN = NaN"

fun dadd :: "double \<Rightarrow> double \<Rightarrow> double" where
  "dadd (Fin x) (Fin y) = to_double (x + y)"
| "dadd NaN b = NaN"
| "dadd a NaN = NaN"
| "dadd PInf NInf = NaN"
| "dadd NInf PInf = NaN"
| "dadd PInf b = PInf"
| "dadd NInf b = NInf"
| "dadd a PInf = PInf"
| "dadd a NInf = NInf"

definition dsub :: "double \<Rightarrow> double \<Rightarrow> double" where
  "dsub a b = dadd a (dneg b)"

fun dsgn :: "double \<Rightarrow> real" where
  "dsgn (Fin x) = sgn x"
| "dsgn PInf = 1"
| "dsgn NInf = - 1"
| "dsgn NaN = 0"

fun dmul :: "double \<Rightarrow> double \<Rightarrow> double" where
  "dmul (Fin x) (Fin y) = to_double (x * y)"
| "dmul a b =
     (if a = NaN \<or> b = NaN \<or> dsgn a * dsgn b = 0 then NaN
      else if 0 < dsgn a * dsgn b then PInf else NInf)"

fun ddiv :: "double \<Rightarrow> double \<Rightarrow> double" where
  "ddiv (Fin x) (Fin y) =
     (if y \<noteq> 0 then to_double (x / y)
      else if x = 0 then NaN else if 0 < x then PInf else NInf)"
| "ddiv NaN b = NaN"
| "ddiv a NaN = NaN"
| "ddiv (Fin x) b = Fin 0"
| "ddiv a (Fin y) = (if (0 \<le> y) = (a = PInf) then PInf else NInf)"
| "ddiv a b = NaN"

fun dsqrt :: "double \<Rightarrow> double" where
  "dsqrt (Fin x) = (if x < 0 then NaN else to_double (sqrt x))"
| "dsqrt PInf = PInf"
| "dsqrt a = NaN"

fun dlog :: "double \<Rightarrow> double" where
  "dlog (Fin x) = (if x < 0 then NaN else if x = 0 then NInf else to_double (ln x))"
| "dlog PInf = PInf"
| "dlog a = NaN"

fun dexp :: "double \<Rightarrow> double" where
  "dexp (Fin x) = to_double (exp x)"
| "dexp PInf = PInf"
| "dexp NInf = Fin 0"
| "dexp NaN = NaN"

fun dle :: "double \<Rightarrow> double \<Rightarrow> bool" where
  "dle (Fin x) (Fin y) \<longleftrightarrow> x \<le> y"
| "dle NaN b \<longleftrightarrow> False"
| "dle a NaN \<longleftrightarrow> False"
| "dle NInf b \<longleftrightarrow> True"
| "dle a PInf \<longleftrightarrow> True"
| "dle a b \<longleftrightarrow> False"

text \<open>
  \<open>dsum\<close> adds from the left. For an array of one or two numbers this is the result of
  \<^verbatim>\<open>np.sum\<close> in whatever order it adds; the order in which numpy adds a longer array is
  its own, and \<open>dsum\<close> does not follow it.
\<close>

fun dsum :: "double list \<Rightarrow> double" where
  "dsum [] = Fin 0"
| "dsum (x # xs) = fold (\<lambda>y acc. dadd acc y) xs x"

definition binary64 :: "double arith" where
  "binary64 = \<lparr>fnat = (\<lambda>n. to_double (real n)), fadd = dadd, fsub = dsub, fmul = dmul,
               fdiv = ddiv, fsqrt = dsqrt, flog = dlog, fexp = dexp, fsum = dsum,
               fle = dle\<rparr>"





section \<open>Facts about the primitives\<close>

lemma arr_max_Max:
  assumes "arr \<noteq> []"
  shows "arr_max arr = Inr (Max (set arr))"
proof (cases arr)
  case Nil
  then show ?thesis using assms by simp
next
  case (Cons x xs)
  have "Max (set (x # xs)) = fold max xs x" by (rule Max.set_eq_fold)
  then show ?thesis using Cons by (simp only: arr_max.simps)
qed

lemma flatnonzero_eq_mask:
  "flatnonzero (map (\<lambda>x. x = m) arr) = filter (\<lambda>i. arr ! i = m) [0..<length arr]"
  unfolding flatnonzero_def by (rule filter_cong) simp_all

lemma set_flatnonzero_eq_mask:
  "set (flatnonzero (map (\<lambda>x. x = m) arr)) = {i. i < length arr \<and> arr ! i = m}"
  by (auto simp: flatnonzero_eq_mask)

lemma distinct_flatnonzero: "distinct (flatnonzero bs)"
  by (simp add: flatnonzero_def)

lemma length_flatnonzero_eq_mask:
  "length (flatnonzero (map (\<lambda>x. x = m) arr)) = card {i. i < length arr \<and> arr ! i = m}"
  using distinct_card [OF distinct_flatnonzero, of "map (\<lambda>x. x = m) arr"]
  by (simp add: set_flatnonzero_eq_mask)

lemma maximisers_nonempty:
  assumes "arr \<noteq> []"
  shows "flatnonzero (map (\<lambda>x. x = Max (set arr)) arr) \<noteq> []"
proof -
  have "Max (set arr) \<in> set arr" using assms by simp
  then obtain i where "i < length arr" "arr ! i = Max (set arr)"
    by (auto simp: in_set_conv_nth)
  then have "i \<in> set (flatnonzero (map (\<lambda>x. x = Max (set arr)) arr))"
    by (simp add: set_flatnonzero_eq_mask)
  then show ?thesis by auto
qed

lemma argmax_rand_nth:
  assumes "arr \<noteq> []"
  shows "argmax_rand arr d =
    Inr (flatnonzero (map (\<lambda>x. x = Max (set arr)) arr)
          ! (d mod length (flatnonzero (map (\<lambda>x. x = Max (set arr)) arr))))"
  using assms maximisers_nonempty [OF assms]
  by (simp add: argmax_rand_def arr_max_Max random_choice_def randint_def)

lemma argmax_rand_is_max:
  assumes "arr \<noteq> []"
  shows "\<exists>i. argmax_rand arr d = Inr i \<and> i < length arr \<and> arr ! i = Max (set arr)"
proof -
  let ?c = "flatnonzero (map (\<lambda>x. x = Max (set arr)) arr)"
  have ne: "?c \<noteq> []" by (rule maximisers_nonempty [OF assms])
  then have "?c ! (d mod length ?c) \<in> set ?c" by simp
  then show ?thesis
    by (simp add: argmax_rand_nth [OF assms] set_flatnonzero_eq_mask)
qed

lemma argmax_rand_empty: "argmax_rand [] d = Inl ValueError"
  by (simp add: argmax_rand_def)

lemma argmax_rand_one_draw:
  assumes "arr \<noteq> []" and "i < length arr" and "arr ! i = Max (set arr)"
  shows "card {r. r < card {j. j < length arr \<and> arr ! j = Max (set arr)}
                 \<and> argmax_rand arr r = Inr i} = 1"
proof -
  let ?c = "flatnonzero (map (\<lambda>x. x = Max (set arr)) arr)"
  have len: "card {j. j < length arr \<and> arr ! j = Max (set arr)} = length ?c"
    by (simp add: length_flatnonzero_eq_mask)
  have "i \<in> set ?c" using assms by (simp add: set_flatnonzero_eq_mask)
  then obtain p where p: "p < length ?c" "?c ! p = i"
    by (auto simp: in_set_conv_nth)
  have "{r. r < length ?c \<and> argmax_rand arr r = Inr i} = {p}"
  proof (rule set_eqI)
    fix r
    show "r \<in> {r. r < length ?c \<and> argmax_rand arr r = Inr i} \<longleftrightarrow> r \<in> {p}"
      using p distinct_flatnonzero [of "map (\<lambda>x. x = Max (set arr)) arr"]
      by (auto simp: argmax_rand_nth [OF assms(1)] nth_eq_iff_index_eq)
  qed
  then show ?thesis by (simp add: len)
qed

section \<open>Loops and their invariants\<close>

lemma for_loop_append:
  "for_loop body (xs @ ys) s =
     (case for_loop body xs s of
        (Some err, s') \<Rightarrow> (Some err, s')
      | (None, s') \<Rightarrow> for_loop body ys s')"
  by (induction xs arbitrary: s) (auto split: prod.splits option.splits)

lemma for_loop_snoc:
  "for_loop body (xs @ [x]) s =
     (case for_loop body xs s of
        (Some err, s') \<Rightarrow> (Some err, s')
      | (None, s') \<Rightarrow> body x s')"
  by (simp add: for_loop_append split: prod.splits option.splits)

lemma for_loop_invariant:
  assumes "P s"
    and "\<And>i s r s'. P s \<Longrightarrow> body i s = (r, s') \<Longrightarrow> P s'"
    and "for_loop body xs s = (r, s')"
  shows "P s'"
  using assms(1,3)
proof (induction xs arbitrary: s)
  case Nil
  then show ?case by simp
next
  case (Cons i xs)
  obtain r1 s1 where b: "body i s = (r1, s1)" by (cases "body i s")
  have p1: "P s1" by (rule assms(2) [OF Cons.prems(1) b])
  show ?case
  proof (cases r1)
    case None
    then show ?thesis using Cons.IH [OF p1] Cons.prems(2) b by simp
  next
    case (Some err)
    then show ?thesis using Cons.prems(2) b p1 by simp
  qed
qed

lemma rewards_of_snoc:
  "length as = length rs \<Longrightarrow>
   rewards_of a (as @ [A]) (rs @ [R]) = rewards_of a as rs @ (if A = a then [R] else [])"
  by (simp add: rewards_of_def)

lemma rewards_of_Nil [simp]: "rewards_of a [] [] = []"
  by (simp add: rewards_of_def)


lemma mean_snoc: "mean (rs @ [R]) = mean rs + (1 / (real (length rs) + 1)) * (R - mean rs)"
  by (simp add: mean_def field_simps)

lemma sum_list_update_real:
  fixes xs :: "real list"
  shows "k < length xs \<Longrightarrow> sum_list (xs[k := v]) = sum_list xs - xs ! k + v"
  by (induction xs arbitrary: k) (auto split: nat.splits)

lemma observe_cases:
  "observe e A s =
     (if A < length (N s) \<and> A < length (Q s) then
        (None, s\<lparr>hist_A := hist_A s @ [A], hist_R := hist_R s @ [reward e (length (calls s)) A],
                  calls := calls s @ [A],
                  Q := (Q s)[A := Q s ! A + (1 / (N s ! A + 1)) * (reward e (length (calls s)) A - Q s ! A)],
                  N := (N s)[A := N s ! A + 1]\<rparr>)
      else (Some IndexError, s\<lparr>calls := calls s @ [A]\<rparr>))"
  by (simp add: observe_def step_def Let_def)

lemma observe_mean_inv:
  assumes "mean_inv k s" and "observe e A s = (r, s')"
  shows "mean_inv k s'"
proof (cases "A < length (N s) \<and> A < length (Q s)")
  case False
  then have "s' = s\<lparr>calls := calls s @ [A]\<rparr>" using assms(2) by (auto simp: observe_cases split: if_splits)
  then show ?thesis using assms(1) by (simp add: mean_inv_def)
next
  case True
  let ?R = "reward e (length (calls s)) A"
  have s': "s' = s\<lparr>hist_A := hist_A s @ [A], hist_R := hist_R s @ [?R],
                  calls := calls s @ [A],
                  Q := (Q s)[A := Q s ! A + (1 / (N s ! A + 1)) * (?R - Q s ! A)],
                  N := (N s)[A := N s ! A + 1]\<rparr>"
    using assms(2) True by (auto simp: observe_cases split: if_splits)
  have len: "length (hist_A s) = length (hist_R s)" "length (Q s) = k" "length (N s) = k"
    using assms(1) by (simp_all add: mean_inv_def)
  have old: "\<And>a. a < length (Q s) \<Longrightarrow>
           N s ! a = real (length (rewards_of a (hist_A s) (hist_R s)))
           \<and> Q s ! a = mean (rewards_of a (hist_A s) (hist_R s))"
    using assms(1) by (simp add: mean_inv_def)
  have sumN: "sum_list (N s) = real (length (hist_A s))"
    using assms(1) by (simp add: mean_inv_def)
  have "\<And>a. a < length (Q s) \<Longrightarrow>
           N s' ! a = real (length (rewards_of a (hist_A s') (hist_R s')))
           \<and> Q s' ! a = mean (rewards_of a (hist_A s') (hist_R s'))"
  proof -
    fix a assume a: "a < length (Q s)"
    show "N s' ! a = real (length (rewards_of a (hist_A s') (hist_R s')))
           \<and> Q s' ! a = mean (rewards_of a (hist_A s') (hist_R s'))"
    proof (cases "a = A")
      case True
      then show ?thesis using old [OF a] a len True
        by (simp add: s' rewards_of_snoc mean_snoc)
    next
      case False
      then show ?thesis using old [OF a] a len
        by (simp add: s' rewards_of_snoc)
    qed
  qed
  moreover have "sum_list (N s') = real (length (hist_A s'))"
    using True sumN by (simp add: s' sum_list_update_real)
  ultimately show ?thesis using len by (simp add: mean_inv_def s')
qed

lemma ucb_step_mean_inv:
  assumes "mean_inv k s" and "ucb_step e c rnd t s = (r, s')"
  shows "mean_inv k s'"
  using assms observe_mean_inv [of k s e]
  by (auto simp: ucb_step_def split: sum.splits)


lemma init_mean_inv: "mean_inv k (init_bandit (replicate k 0) (replicate k 0))"
  by (simp add: mean_inv_def init_bandit_def mean_def sum_list_replicate)

lemma ucb_after_mean_inv:
  assumes "ucb_after e nb c rnd t = (r, s)"
  shows "mean_inv (nat (size_env e)) s"
proof -
  let ?k = "nat (size_env e)"
  obtain r1 s1 where w: "for_loop (observe e) (take t (py_range 0 (size_env e)))
      (init_bandit (replicate ?k 0) (replicate ?k 0)) = (r1, s1)"
    by (cases "for_loop (observe e) (take t (py_range 0 (size_env e)))
      (init_bandit (replicate ?k 0) (replicate ?k 0))")
  have i1: "mean_inv ?k s1"
    by (rule for_loop_invariant [where P = "mean_inv ?k", OF init_mean_inv _ w])
      (rule observe_mean_inv)
  show ?thesis
  proof (cases r1)
    case (Some err)
    then show ?thesis using assms w i1 by (simp add: ucb_after_def)
  next
    case None
    then have l: "for_loop (ucb_step e c rnd) (take (t - ?k) (py_range (size_env e) nb)) s1 = (r, s)"
      using assms w by (simp add: ucb_after_def)
    show ?thesis
      by (rule for_loop_invariant [where P = "mean_inv ?k", OF i1 _ l]) (rule ucb_step_mean_inv)
  qed
qed


lemma length_py_range: "length (py_range lo hi) = nat hi - nat lo"
  by (simp add: py_range_def)


lemma ucb_bandit_negative: "size_env e < 0 \<Longrightarrow> ucb_bandit e nb c rnd = (Inl ValueError, [])"
  by (simp add: ucb_bandit_def np_zeros_def)

lemma simple_bandit_after:
  assumes "0 \<le> size_env e"
  shows "simple_bandit e nb eps coin rnd =
    (case simple_after e nb eps coin rnd (nat nb) of
       (Some err, s) \<Rightarrow> (Inl err, calls s)
     | (None, s) \<Rightarrow> (Inr (Q s, hist_A s, hist_R s), calls s))"
  using assms
  by (simp add: simple_bandit_def simple_after_def np_zeros_def length_py_range
      split: prod.splits option.splits)



section \<open>The two phases of the UCB run\<close>

lemma for_loop_take_Suc:
  assumes "i < length xs"
  shows "for_loop body (take (Suc i) xs) s =
     (case for_loop body (take i xs) s of
        (Some err, s') \<Rightarrow> (Some err, s')
      | (None, s') \<Rightarrow> body (xs ! i) s')"
  by (simp add: take_Suc_conv_app_nth [OF assms] for_loop_snoc)

lemma warmup_state:
  assumes "t \<le> k"
  shows "for_loop (observe e) [0..<t] (init_bandit (replicate k 0) (replicate k 0)) =
     (None, \<lparr>hist_A = [0..<t], hist_R = map (\<lambda>a. reward e a a) [0..<t], calls = [0..<t],
             Q = map (\<lambda>a. reward e a a) [0..<t] @ replicate (k - t) 0,
             N = replicate t 1 @ replicate (k - t) 0\<rparr>)"
  using assms
proof (induction t)
  case 0
  then show ?case by (simp add: init_bandit_def)
next
  case (Suc t)
  then have t: "t < k" by simp
  then have r: "replicate (k - t) (0::real) = 0 # replicate (k - Suc t) 0"
    by (cases "k - t") (simp_all add: Suc_diff_Suc)
  show ?case
    using Suc t
    by (simp add: for_loop_snoc observe_cases r nth_append list_update_append
        replicate_append_same)
qed

lemma take_py_range_0: "take t (py_range 0 (int k)) = [0..<min t k]"
  by (simp add: py_range_def take_upt min_def)

lemma ucb_after_warm:
  assumes "size_env e = int k" and "t \<le> k"
  shows "ucb_after e nb c rnd t =
     (None, \<lparr>hist_A = [0..<t], hist_R = map (\<lambda>a. reward e a a) [0..<t], calls = [0..<t],
             Q = map (\<lambda>a. reward e a a) [0..<t] @ replicate (k - t) 0,
             N = replicate t 1 @ replicate (k - t) 0\<rparr>)"
  using assms
  by (simp add: ucb_after_def take_py_range_0 min_absorb1 warmup_state)

lemma ucb_after_Suc:
  assumes "size_env e = int k" and "k \<le> t" and "int t < nb"
  shows "ucb_after e nb c rnd (Suc t) =
     (case ucb_after e nb c rnd t of
        (Some err, s) \<Rightarrow> (Some err, s)
      | (None, s) \<Rightarrow> ucb_step e c rnd t s)"
proof -
  have i: "t - k < length (py_range (int k) nb)"
    using assms by (simp add: py_range_def)
  have n: "py_range (int k) nb ! (t - k) = t"
    using assms i by (simp add: py_range_def)
  have "for_loop (ucb_step e c rnd) (take (Suc (t - k)) (py_range (int k) nb)) s1 =
     (case for_loop (ucb_step e c rnd) (take (t - k) (py_range (int k) nb)) s1 of
        (Some err, s') \<Rightarrow> (Some err, s')
      | (None, s') \<Rightarrow> ucb_step e c rnd t s')" for s1
    using for_loop_take_Suc [OF i, of "ucb_step e c rnd" s1] unfolding n .
  then show ?thesis
    using assms
    by (simp add: ucb_after_def take_py_range_0 Suc_diff_le warmup_state
        split: prod.splits option.splits)
qed

lemma length_ucb_scores: "length (Q s) = length (N s) \<Longrightarrow> length (ucb_scores c t s) = length (Q s)"
  by (simp add: ucb_scores_def)

lemma nth_ucb_scores:
  "length (Q s) = length (N s) \<Longrightarrow> a < length (Q s) \<Longrightarrow>
   ucb_scores c t s ! a = Q s ! a + c * sqrt (ln (real t) / N s ! a)"
  by (simp add: ucb_scores_def)

lemma observe_bound_inv:
  assumes "bound_inv k s" and "A < k"
  shows "\<exists>s'. observe e A s = (None, s') \<and> bound_inv k s'
     \<and> hist_A s' = hist_A s @ [A]
     \<and> hist_R s' = hist_R s @ [reward e (length (hist_A s)) A]"
proof -
  have len: "length (Q s) = k" "length (N s) = k"
    using assms(1) by (simp_all add: bound_inv_def mean_inv_def)
  let ?s' = "s\<lparr>hist_A := hist_A s @ [A], hist_R := hist_R s @ [reward e (length (calls s)) A],
                  calls := calls s @ [A],
                  Q := (Q s)[A := Q s ! A + (1 / (N s ! A + 1)) * (reward e (length (calls s)) A - Q s ! A)],
                  N := (N s)[A := N s ! A + 1]\<rparr>"
  have o: "observe e A s = (None, ?s')"
    using len assms(2) by (simp add: observe_cases)
  have m: "mean_inv k ?s'"
    using observe_mean_inv [OF _ o] assms(1) by (simp add: bound_inv_def)
  have c: "calls s = hist_A s" "take k (hist_A s) = [0..<k]"
    using assms(1) by (simp_all add: bound_inv_def)
  have kl: "k \<le> length (hist_A s)"
    using c(2) by (metis length_take length_upt min.cobounded1 diff_zero)
  have n: "list_all (\<lambda>n. 1 \<le> n) ((N s)[A := N s ! A + 1])"
    using assms(1) len assms(2)
    by (auto simp: bound_inv_def list_all_length nth_list_update)
  have "bound_inv k ?s'"
    using m n c kl by (simp add: bound_inv_def)
  then show ?thesis using o c by auto
qed

lemma ucb_step_bound_inv:
  assumes "bound_inv k s" and "0 < k"
  shows "\<exists>A s'. argmax_rand (ucb_scores c t s) (rnd t) = Inr A \<and> A < k
     \<and> (\<forall>a<k. Q s ! a + c * sqrt (ln (real t) / N s ! a)
             \<le> Q s ! A + c * sqrt (ln (real t) / N s ! A))
     \<and> ucb_step e c rnd t s = (None, s') \<and> bound_inv k s'
     \<and> hist_A s' = hist_A s @ [A]
     \<and> hist_R s' = hist_R s @ [reward e (length (hist_A s)) A]"
proof -
  have len: "length (Q s) = k" "length (N s) = k"
    using assms(1) by (simp_all add: bound_inv_def mean_inv_def)
  have ls: "length (ucb_scores c t s) = k"
    using len by (simp add: length_ucb_scores)
  then have ne: "ucb_scores c t s \<noteq> []" using assms(2) by auto
  obtain A where A: "argmax_rand (ucb_scores c t s) (rnd t) = Inr A" "A < k"
    "ucb_scores c t s ! A = Max (set (ucb_scores c t s))"
    using argmax_rand_is_max [OF ne, of "rnd t"] ls by auto
  have mx: "ucb_scores c t s ! a \<le> ucb_scores c t s ! A" if "a < k" for a
    using that ls A(3) by simp
  have sc: "Q s ! a + c * sqrt (ln (real t) / N s ! a)
             \<le> Q s ! A + c * sqrt (ln (real t) / N s ! A)" if "a < k" for a
    using mx [OF that] that A(2) len by (simp add: nth_ucb_scores)
  obtain s' where s': "observe e A s = (None, s')" "bound_inv k s'"
     "hist_A s' = hist_A s @ [A]" "hist_R s' = hist_R s @ [reward e (length (hist_A s)) A]"
    using observe_bound_inv [OF assms(1) A(2)] by blast
  have "ucb_step e c rnd t s = (None, s')"
    using A(1) s'(1) by (simp add: ucb_step_def)
  then show ?thesis using A sc s' by blast
qed

lemma ucb_after_bound:
  assumes "size_env e = int k" and "0 < k" and "k \<le> t" and "int t \<le> nb"
  shows "\<exists>s. ucb_after e nb c rnd t = (None, s) \<and> bound_inv k s \<and> length (hist_A s) = t"
  using assms(3,4)
proof (induction t rule: dec_induct)
  case base
  have w: "ucb_after e nb c rnd k =
     (None, \<lparr>hist_A = [0..<k], hist_R = map (\<lambda>a. reward e a a) [0..<k], calls = [0..<k],
             Q = map (\<lambda>a. reward e a a) [0..<k] @ replicate (k - k) 0,
             N = replicate k 1 @ replicate (k - k) 0\<rparr>)"
    by (rule ucb_after_warm [OF assms(1) order_refl])
  have m: "mean_inv k (snd (ucb_after e nb c rnd k))"
    using ucb_after_mean_inv [of e nb c rnd k] assms(1)
    by (cases "ucb_after e nb c rnd k") simp
  show ?case using m by (simp add: w bound_inv_def list_all_length)
next
  case (step t)
  then have lt: "int t < nb" by simp
  obtain s where s: "ucb_after e nb c rnd t = (None, s)" "bound_inv k s" "length (hist_A s) = t"
    using step by auto
  obtain A s' where s': "ucb_step e c rnd t s = (None, s')" "bound_inv k s'"
      "hist_A s' = hist_A s @ [A]"
    using ucb_step_bound_inv [OF s(2) assms(2), of c t rnd e] by blast
  have "ucb_after e nb c rnd (Suc t) = (None, s')"
    using ucb_after_Suc [OF assms(1) step(1) lt, of c rnd] s(1) s'(1) by simp
  then show ?case using s' s(3) by simp
qed



section \<open>Softmax, sampling and the gradient loop\<close>

lemma softmax_nonempty:
  assumes "x \<noteq> []"
  shows "softmax x = Inr (map (\<lambda>v. exp (v - Max (set x)) / sum_list (map (\<lambda>v. exp (v - Max (set x))) x)) x)"
  by (simp add: softmax_def arr_max_Max [OF assms] Let_def comp_def)

lemma softmax_empty: "softmax [] = Inl ValueError"
  by (simp add: softmax_def)

lemma member_le_sum_list_real:
  fixes xs :: "real list"
  assumes "\<And>y. y \<in> set xs \<Longrightarrow> 0 \<le> y" and "x \<in> set xs"
  shows "x \<le> sum_list xs"
  using assms
proof (induction xs)
  case Nil
  then show ?case by simp
next
  case (Cons y ys)
  have nn: "0 \<le> sum_list ys" using Cons.prems(1) by (simp add: sum_list_nonneg)
  show ?case
  proof (cases "x = y")
    case True
    then show ?thesis using nn by simp
  next
    case False
    then have "x \<le> sum_list ys" using Cons by simp
    moreover have "0 \<le> y" using Cons.prems(1) by simp
    ultimately show ?thesis by simp
  qed
qed

lemma softmax_normaliser_ge_1:
  fixes x :: "real list"
  assumes "x \<noteq> []"
  shows "1 \<le> sum_list (map (\<lambda>v. exp (v - Max (set x))) x)"
proof -
  have "Max (set x) \<in> set x" using assms by simp
  then have "(1::real) \<in> set (map (\<lambda>v. exp (v - Max (set x))) x)"
    by (auto simp: image_iff intro!: bexI [of _ "Max (set x)"])
  moreover have "\<And>y. y \<in> set (map (\<lambda>v. exp (v - Max (set x))) x) \<Longrightarrow> (0::real) \<le> y"
    by auto
  ultimately show ?thesis by (rule member_le_sum_list_real [rotated])
qed

lemma sum_list_map_divide:
  fixes f :: "'a \<Rightarrow> real"
  shows "sum_list (map (\<lambda>v. f v / z) xs) = sum_list (map f xs) / z"
  by (induction xs) (simp_all add: add_divide_distrib)

lemma softmax_sum:
  assumes "softmax x = Inr ps"
  shows "sum_list ps = 1 \<and> length ps = length x \<and> x \<noteq> []"
proof -
  have ne: "x \<noteq> []" using assms by (auto simp: softmax_empty)
  have z: "1 \<le> sum_list (map (\<lambda>v. exp (v - Max (set x))) x)"
    by (rule softmax_normaliser_ge_1 [OF ne])
  have ps: "ps = map (\<lambda>v. exp (v - Max (set x)) / sum_list (map (\<lambda>v. exp (v - Max (set x))) x)) x"
    using assms by (simp add: softmax_nonempty [OF ne])
  have "sum_list ps = 1" using z by (simp add: ps sum_list_map_divide)
  then show ?thesis using ne by (simp add: ps)
qed

lemma softmax_entries:
  assumes "softmax x = Inr ps" and "p \<in> set ps"
  shows "0 < p \<and> p \<le> 1"
proof -
  have ne: "x \<noteq> []" using assms by (auto simp: softmax_empty)
  let ?Z = "sum_list (map (\<lambda>v. exp (v - Max (set x))) x)"
  have z: "1 \<le> ?Z" by (rule softmax_normaliser_ge_1 [OF ne])
  have ps: "ps = map (\<lambda>v. exp (v - Max (set x)) / ?Z) x"
    using assms by (simp add: softmax_nonempty [OF ne])
  then obtain v where v: "v \<in> set x" "p = exp (v - Max (set x)) / ?Z"
    using assms(2) by auto
  have "exp (v - Max (set x)) \<le> 1" using v(1) by simp
  then have "exp (v - Max (set x)) \<le> ?Z" using z by linarith
  then have "p \<le> 1" using z by (simp add: v(2))
  moreover have "0 < p" using z by (simp add: v(2))
  ultimately show ?thesis by simp
qed

lemma length_cumsum: "length (cumsum acc xs) = length xs"
  by (induction xs arbitrary: acc) simp_all

lemma last_cumsum: "xs \<noteq> [] \<Longrightarrow> last (cumsum acc xs) = acc + sum_list xs"
proof (induction xs arbitrary: acc)
  case Nil
  then show ?case by simp
next
  case (Cons x xs)
  show ?case
  proof (cases xs)
    case Nil
    then show ?thesis by simp
  next
    case (Cons y ys)
    then have "cumsum (acc + x) xs \<noteq> []" by simp
    then show ?thesis using Cons.IH [of "acc + x"] Cons by (simp add: add.assoc)
  qed
qed

lemma rand_less_1: "rand d < 1"
proof -
  have "d mod 2 ^ 53 < (2::nat) ^ 53" by simp
  then have "real (d mod 2 ^ 53) < 2 ^ 53"
    by (metis of_nat_less_iff of_nat_numeral of_nat_power)
  then show ?thesis by (simp add: rand_def)
qed

lemma choice_p_in_range:
  assumes "0 < k" and "length ps = k" and "\<forall>p\<in>set ps. 0 \<le> p" and "sum_list ps = 1"
  shows "\<exists>A. choice_p k ps d = Inr A \<and> A < k"
proof -
  have ne: "ps \<noteq> []" using assms(1,2) by auto
  let ?cdf = "cumsum 0 ps"
  let ?n = "map (\<lambda>c. c / last ?cdf) ?cdf"
  have l: "last ?cdf = 1" using last_cumsum [OF ne, of 0] assms(4) by simp
  have cne: "?cdf \<noteq> []" using ne length_cumsum [of 0 ps] by auto
  have "last ?n = 1" using cne l by (simp add: last_map)
  then have m: "1 \<in> set ?n" using cne by (metis last_in_set map_is_Nil_conv)
  have "\<not> (1 \<le> rand d)" using rand_less_1 [of d] by simp
  then have "length (filter (\<lambda>c. c \<le> rand d) ?n) < length ?n"
    using m by (rule length_filter_less [rotated])
  then have lt: "searchsorted_right ?n (rand d) < k"
    by (simp add: searchsorted_right_def length_cumsum assms(2))
  have ok: "\<not> (k = 0 \<or> length ps \<noteq> k \<or> list_ex (\<lambda>x. x < 0) ps \<or> \<bar>sum_list ps - 1\<bar> > 1 / 2 ^ 26)"
    using assms by (auto simp: list_ex_iff)
  have "choice_p k ps d = Inr (searchsorted_right ?n (rand d))"
    unfolding choice_p_def using ok by (simp add: Let_def)
  then show ?thesis using lt by simp
qed

lemma sum_list_map_le_length:
  fixes f :: "'a \<Rightarrow> real"
  assumes "\<And>v. v \<in> set xs \<Longrightarrow> f v \<le> 1"
  shows "sum_list (map f xs) \<le> real (length xs)"
  using assms
proof (induction xs)
  case Nil
  then show ?case by simp
next
  case (Cons x xs)
  have "f x \<le> 1" using Cons.prems by simp
  moreover have "sum_list (map f xs) \<le> real (length xs)" using Cons by simp
  ultimately show ?case by simp
qed

lemma gradient_step_ok:
  assumes "softmax (H s) = Inr ps" and "choice_p (nat (size_env e)) ps (rnd t) = Inr A"
    and "A < length (H s)"
  shows "gradient_step e alpha baseline rnd t s =
     (None, s\<lparr>hist_A := hist_A s @ [A],
               hist_R := hist_R s @ [reward e (length (calls s)) A],
               calls := calls s @ [A],
               H := (map2 (\<lambda>h p. h - alpha * (reward e (length (calls s)) A - R_bar s) * p) (H s) ps)
                      [A := H s ! A + alpha * (reward e (length (calls s)) A - R_bar s) * (1 - ps ! A)],
               R_bar := (if baseline
                         then R_bar s + 1 / (N_bar s + 1) * (reward e (length (calls s)) A - R_bar s)
                         else R_bar s),
               N_bar := (if baseline then N_bar s + 1 else N_bar s)\<rparr>)"
proof -
  have "length ps = length (H s)" using softmax_sum [OF assms(1)] by simp
  then show ?thesis
    using assms by (simp add: gradient_step_def step_def Let_def)
qed

lemma gradient_step_unchanged:
  assumes "gradient_step e alpha baseline rnd t s = (Some err, s')"
  shows "H s' = H s \<and> R_bar s' = R_bar s \<and> N_bar s' = N_bar s
     \<and> hist_A s' = hist_A s \<and> hist_R s' = hist_R s"
  using assms
  by (auto simp: gradient_step_def step_def Let_def split: sum.splits if_splits)

lemma gradient_step_None:
  assumes "gradient_step e alpha baseline rnd t s = (None, s')"
  shows "\<exists>ps A. softmax (H s) = Inr ps \<and> choice_p (nat (size_env e)) ps (rnd t) = Inr A
     \<and> A < length (H s)"
  using assms
  by (auto simp: gradient_step_def step_def Let_def split: sum.splits if_splits)

lemma sum_list_map2_sub:
  fixes hs :: "real list"
  shows "length hs = length ps \<Longrightarrow>
    sum_list (map2 (\<lambda>h p. h - d * p) hs ps) = sum_list hs - d * sum_list ps"
  by (induction hs ps rule: list_induct2) (simp_all add: algebra_simps)

lemma gradient_update_sum:
  fixes hs :: "real list"
  assumes "length ps = length hs" and "A < length hs" and "sum_list ps = 1"
  shows "sum_list ((map2 (\<lambda>h p. h - d * p) hs ps)[A := hs ! A + d * (1 - ps ! A)]) = sum_list hs"
proof -
  let ?m = "map2 (\<lambda>h p. h - d * p) hs ps"
  have l: "A < length ?m" using assms by simp
  have n: "?m ! A = hs ! A - d * ps ! A" using assms by simp
  have "sum_list (?m[A := hs ! A + d * (1 - ps ! A)])
        = sum_list ?m - ?m ! A + (hs ! A + d * (1 - ps ! A))"
    by (rule sum_list_update_real [OF l])
  also have "\<dots> = (sum_list hs - d * sum_list ps) - (hs ! A - d * ps ! A)
        + (hs ! A + d * (1 - ps ! A))"
    using assms(1) by (simp only: n sum_list_map2_sub [of hs ps d])
  also have "\<dots> = sum_list hs"
    by (simp add: assms(3) algebra_simps)
  finally show ?thesis .
qed

lemma gradient_step_grad_inv:
  assumes "grad_inv baseline s" and "gradient_step e alpha baseline rnd t s = (r, s')"
  shows "grad_inv baseline s'"
proof (cases r)
  case (Some err)
  then show ?thesis
    using gradient_step_unchanged [of e alpha baseline rnd t s err s'] assms
    by (simp add: grad_inv_def)
next
  case None
  then obtain ps A where pa: "softmax (H s) = Inr ps"
      "choice_p (nat (size_env e)) ps (rnd t) = Inr A" "A < length (H s)"
    using gradient_step_None [of e alpha baseline rnd t s s'] assms(2) by blast
  have sm: "sum_list ps = 1" "length ps = length (H s)"
    using softmax_sum [OF pa(1)] by simp_all
  have s': "s' = s\<lparr>hist_A := hist_A s @ [A],
               hist_R := hist_R s @ [reward e (length (calls s)) A],
               calls := calls s @ [A],
               H := (map2 (\<lambda>h p. h - alpha * (reward e (length (calls s)) A - R_bar s) * p) (H s) ps)
                      [A := H s ! A + alpha * (reward e (length (calls s)) A - R_bar s) * (1 - ps ! A)],
               R_bar := (if baseline
                         then R_bar s + 1 / (N_bar s + 1) * (reward e (length (calls s)) A - R_bar s)
                         else R_bar s),
               N_bar := (if baseline then N_bar s + 1 else N_bar s)\<rparr>"
    using gradient_step_ok [where rnd = rnd and t = t, OF pa, of alpha baseline] assms(2) None
    by simp
  have h: "sum_list (H s') = 0"
    using gradient_update_sum [OF sm(2) pa(3) sm(1)] assms(1)
    by (simp add: s' grad_inv_def)
  show ?thesis
    using h assms(1) by (simp add: grad_inv_def s' mean_snoc)
qed

lemma init_grad_inv: "grad_inv baseline (init_grad (replicate k 0))"
  by (simp add: grad_inv_def init_grad_def mean_def sum_list_replicate)

lemma gradient_after_grad_inv:
  assumes "gradient_after e nb alpha baseline rnd t = (r, s)"
  shows "grad_inv baseline s"
proof -
  have l: "for_loop (gradient_step e alpha baseline rnd) (take t (py_range 0 nb))
       (init_grad (replicate (nat (size_env e)) 0)) = (r, s)"
    using assms by (simp add: gradient_after_def)
  show ?thesis
    by (rule for_loop_invariant [where P = "grad_inv baseline", OF init_grad_inv _ l])
      (rule gradient_step_grad_inv)
qed

lemma gradient_bandit_after:
  assumes "0 \<le> size_env e"
  shows "gradient_bandit e nb alpha baseline rnd =
    (case gradient_after e nb alpha baseline rnd (nat nb) of
       (Some err, s) \<Rightarrow> (Inl err, calls s)
     | (None, s) \<Rightarrow> (Inr (H s, hist_A s, hist_R s), calls s))"
  using assms
  by (simp add: gradient_bandit_def gradient_after_def np_zeros_def length_py_range
      split: prod.splits option.splits)

lemma gradient_bandit_negative:
  "size_env e < 0 \<Longrightarrow> gradient_bandit e nb alpha baseline rnd = (Inl ValueError, [])"
  by (simp add: gradient_bandit_def np_zeros_def)

lemma gradient_step_grad_run:
  assumes "grad_run k s" and "0 < k" and "size_env e = int k"
  shows "\<exists>ps A s'. softmax (H s) = Inr ps \<and> length ps = k
     \<and> choice_p k ps (rnd t) = Inr A \<and> A < k
     \<and> gradient_step e alpha baseline rnd t s = (None, s') \<and> grad_run k s'
     \<and> s' = s\<lparr>hist_A := hist_A s @ [A],
               hist_R := hist_R s @ [reward e (length (hist_A s)) A],
               calls := calls s @ [A],
               H := (map2 (\<lambda>h p. h - alpha * (reward e (length (hist_A s)) A - R_bar s) * p) (H s) ps)
                      [A := H s ! A + alpha * (reward e (length (hist_A s)) A - R_bar s) * (1 - ps ! A)],
               R_bar := (if baseline
                         then R_bar s + 1 / (N_bar s + 1) * (reward e (length (hist_A s)) A - R_bar s)
                         else R_bar s),
               N_bar := (if baseline then N_bar s + 1 else N_bar s)\<rparr>"
proof -
  have len: "length (H s) = k" "calls s = hist_A s" "length (hist_A s) = length (hist_R s)"
    using assms(1) by (simp_all add: grad_run_def)
  then have ne: "H s \<noteq> []" using assms(2) by auto
  obtain ps where ps: "softmax (H s) = Inr ps"
    using softmax_nonempty [OF ne] by blast
  have sm: "sum_list ps = 1" "length ps = k"
    using softmax_sum [OF ps] len by simp_all
  have nn: "\<forall>p\<in>set ps. 0 \<le> p"
    using softmax_entries [OF ps] by (auto intro: less_imp_le)
  obtain A where A: "choice_p k ps (rnd t) = Inr A" "A < k"
    using choice_p_in_range [OF assms(2) sm(2) nn sm(1), of "rnd t"] by blast
  have c: "choice_p (nat (size_env e)) ps (rnd t) = Inr A"
    using A(1) assms(3) by simp
  have al: "A < length (H s)" using A(2) len by simp
  let ?s' = "s\<lparr>hist_A := hist_A s @ [A],
               hist_R := hist_R s @ [reward e (length (hist_A s)) A],
               calls := calls s @ [A],
               H := (map2 (\<lambda>h p. h - alpha * (reward e (length (hist_A s)) A - R_bar s) * p) (H s) ps)
                      [A := H s ! A + alpha * (reward e (length (hist_A s)) A - R_bar s) * (1 - ps ! A)],
               R_bar := (if baseline
                         then R_bar s + 1 / (N_bar s + 1) * (reward e (length (hist_A s)) A - R_bar s)
                         else R_bar s),
               N_bar := (if baseline then N_bar s + 1 else N_bar s)\<rparr>"
  have st: "gradient_step e alpha baseline rnd t s = (None, ?s')"
    using gradient_step_ok [where rnd = rnd and t = t, OF ps c al, of alpha baseline] len
    by simp
  have gr: "grad_run k ?s'"
    using len sm by (simp add: grad_run_def)
  show ?thesis using ps sm(2) A st gr by blast
qed

lemma nth_py_range_0: "int t < nb \<Longrightarrow> t < length (py_range 0 nb) \<and> py_range 0 nb ! t = t"
  by (simp add: py_range_def)

lemma gradient_after_Suc:
  assumes "int t < nb"
  shows "gradient_after e nb alpha baseline rnd (Suc t) =
     (case gradient_after e nb alpha baseline rnd t of
        (Some err, s) \<Rightarrow> (Some err, s)
      | (None, s) \<Rightarrow> gradient_step e alpha baseline rnd t s)"
proof -
  have i: "t < length (py_range 0 nb)" and n: "py_range 0 nb ! t = t"
    using nth_py_range_0 [OF assms] by simp_all
  show ?thesis
    unfolding gradient_after_def
    using for_loop_take_Suc [OF i, of "gradient_step e alpha baseline rnd"] unfolding n .
qed

lemma simple_after_Suc:
  assumes "int t < nb"
  shows "simple_after e nb eps coin rnd (Suc t) =
     (case simple_after e nb eps coin rnd t of
        (Some err, s) \<Rightarrow> (Some err, s)
      | (None, s) \<Rightarrow> simple_step e eps coin rnd t s)"
proof -
  have i: "t < length (py_range 0 nb)" and n: "py_range 0 nb ! t = t"
    using nth_py_range_0 [OF assms] by simp_all
  show ?thesis
    unfolding simple_after_def Let_def
    using for_loop_take_Suc [OF i, of "simple_step e eps coin rnd"] unfolding n .
qed

lemma gradient_after_run:
  assumes "size_env e = int k" and "0 < k" and "int t \<le> nb"
  shows "\<exists>s. gradient_after e nb alpha baseline rnd t = (None, s) \<and> grad_run k s
     \<and> length (hist_A s) = t"
  using assms(3)
proof (induction t)
  case 0
  then show ?case using assms(1) by (simp add: gradient_after_def grad_run_def init_grad_def)
next
  case (Suc t)
  then have lt: "int t < nb" by simp
  obtain s where s: "gradient_after e nb alpha baseline rnd t = (None, s)" "grad_run k s"
     "length (hist_A s) = t"
    using Suc by auto
  obtain ps A s' where s': "gradient_step e alpha baseline rnd t s = (None, s')"
     "grad_run k s'"
     and eq: "s' = s\<lparr>hist_A := hist_A s @ [A],
               hist_R := hist_R s @ [reward e (length (hist_A s)) A],
               calls := calls s @ [A],
               H := (map2 (\<lambda>h p. h - alpha * (reward e (length (hist_A s)) A - R_bar s) * p) (H s) ps)
                      [A := H s ! A + alpha * (reward e (length (hist_A s)) A - R_bar s) * (1 - ps ! A)],
               R_bar := (if baseline
                         then R_bar s + 1 / (N_bar s + 1) * (reward e (length (hist_A s)) A - R_bar s)
                         else R_bar s),
               N_bar := (if baseline then N_bar s + 1 else N_bar s)\<rparr>"
    using gradient_step_grad_run [OF s(2) assms(2,1), of rnd t alpha baseline] by blast
  have hl: "length (hist_A s') = Suc (length (hist_A s))" by (simp add: eq)
  have "gradient_after e nb alpha baseline rnd (Suc t) = (None, s')"
    using gradient_after_Suc [OF lt, of e alpha baseline rnd] s(1) s'(1) by simp
  then show ?case using s' s(3) hl by simp
qed

lemma simple_step_run:
  assumes "mean_inv k s" and "calls s = hist_A s" and "0 < k" and "size_env e = int k"
  shows "\<exists>s'. simple_step e eps coin rnd t s = (None, s') \<and> mean_inv k s'
     \<and> calls s' = hist_A s' \<and> length (hist_A s') = Suc (length (hist_A s))"
proof -
  have len: "length (Q s) = k" "length (N s) = k"
    using assms(1) by (simp_all add: mean_inv_def)
  then have ne: "Q s \<noteq> []" using assms(3) by auto
  have "\<exists>A. (if rand (coin t) > eps then argmax_rand (Q s) (rnd t)
            else randint (nat (size_env e)) (rnd t)) = Inr A \<and> A < k"
    using argmax_rand_is_max [OF ne, of "rnd t"] len assms(3,4)
    by (auto simp: randint_def)
  then obtain A where A: "(if rand (coin t) > eps then argmax_rand (Q s) (rnd t)
            else randint (nat (size_env e)) (rnd t)) = Inr A" "A < k" by blast
  have st: "simple_step e eps coin rnd t s = observe e A s"
    unfolding simple_step_def A(1) by simp
  have o: "observe e A s =
     (None, s\<lparr>hist_A := hist_A s @ [A], hist_R := hist_R s @ [reward e (length (calls s)) A],
                  calls := calls s @ [A],
                  Q := (Q s)[A := Q s ! A + (1 / (N s ! A + 1)) * (reward e (length (calls s)) A - Q s ! A)],
                  N := (N s)[A := N s ! A + 1]\<rparr>)"
    using len A(2) by (simp add: observe_cases)
  show ?thesis
    using observe_mean_inv [OF assms(1) o] assms(2) by (simp add: st o)
qed

lemma simple_after_run:
  assumes "size_env e = int k" and "0 < k" and "int t \<le> nb"
  shows "\<exists>s. simple_after e nb eps coin rnd t = (None, s) \<and> mean_inv k s
     \<and> calls s = hist_A s \<and> length (hist_A s) = t"
  using assms(3)
proof (induction t)
  case 0
  then show ?case
    using init_mean_inv [of k] assms(1) by (simp add: simple_after_def init_bandit_def Let_def)
next
  case (Suc t)
  then have lt: "int t < nb" by simp
  obtain s where s: "simple_after e nb eps coin rnd t = (None, s)" "mean_inv k s"
     "calls s = hist_A s" "length (hist_A s) = t"
    using Suc by auto
  obtain s' where s': "simple_step e eps coin rnd t s = (None, s')" "mean_inv k s'"
     "calls s' = hist_A s'" "length (hist_A s') = Suc (length (hist_A s))"
    using simple_step_run [OF s(2,3) assms(2,1), of eps coin rnd t] by blast
  have "simple_after e nb eps coin rnd (Suc t) = (None, s')"
    using simple_after_Suc [OF lt, of e eps coin rnd] s(1) s'(1) by simp
  then show ?case using s' s(4) by simp
qed

section \<open>Whole runs\<close>

lemma gradient_bandit_result:
  assumes "size_env e = int k" and "0 < k"
  shows "\<exists>s. gradient_bandit e nb alpha baseline rnd = (Inr (H s, hist_A s, hist_R s), hist_A s)
     \<and> gradient_after e nb alpha baseline rnd (nat nb) = (None, s)
     \<and> grad_run k s \<and> length (hist_A s) = nat nb"
proof -
  have le: "int (nat nb) \<le> nb \<or> nat nb = 0" by simp
  have "\<exists>s. gradient_after e nb alpha baseline rnd (nat nb) = (None, s) \<and> grad_run k s
     \<and> length (hist_A s) = nat nb"
  proof (cases "0 \<le> nb")
    case True
    then have "int (nat nb) \<le> nb" by simp
    then show ?thesis by (rule gradient_after_run [OF assms])
  next
    case False
    then have z: "nat nb = 0" by simp
    show ?thesis
      unfolding z using assms(1) by (simp add: gradient_after_def grad_run_def init_grad_def)
  qed
  then obtain s where s: "gradient_after e nb alpha baseline rnd (nat nb) = (None, s)"
     "grad_run k s" "length (hist_A s) = nat nb" by blast
  have "gradient_bandit e nb alpha baseline rnd = (Inr (H s, hist_A s, hist_R s), calls s)"
    using assms s(1) by (simp add: gradient_bandit_after)
  then show ?thesis using s by (auto simp: grad_run_def)
qed

lemma simple_bandit_result:
  assumes "size_env e = int k" and "0 < k"
  shows "\<exists>s. simple_bandit e nb eps coin rnd = (Inr (Q s, hist_A s, hist_R s), hist_A s)
     \<and> simple_after e nb eps coin rnd (nat nb) = (None, s)
     \<and> mean_inv k s \<and> length (hist_A s) = nat nb"
proof -
  have "\<exists>s. simple_after e nb eps coin rnd (nat nb) = (None, s) \<and> mean_inv k s
     \<and> calls s = hist_A s \<and> length (hist_A s) = nat nb"
  proof (cases "0 \<le> nb")
    case True
    then have "int (nat nb) \<le> nb" by simp
    then show ?thesis by (rule simple_after_run [OF assms])
  next
    case False
    then have z: "nat nb = 0" by simp
    show ?thesis
      unfolding z using assms(1) init_mean_inv [of k]
      by (simp add: simple_after_def init_bandit_def Let_def)
  qed
  then obtain s where s: "simple_after e nb eps coin rnd (nat nb) = (None, s)"
     "mean_inv k s" "calls s = hist_A s" "length (hist_A s) = nat nb" by blast
  have "simple_bandit e nb eps coin rnd = (Inr (Q s, hist_A s, hist_R s), calls s)"
    using assms s(1) by (simp add: simple_bandit_after)
  then show ?thesis using s by auto
qed

lemma ucb_after_counts:
  assumes "size_env e = int k" and "0 < k" and "t \<le> max k (nat nb)"
  shows "\<exists>s. ucb_after e nb c rnd t = (None, s) \<and> sum_list (N s) = real t
     \<and> length (hist_A s) = t \<and> length (hist_R s) = t \<and> calls s = hist_A s"
proof (cases "t \<le> k")
  case True
  show ?thesis
    by (simp add: ucb_after_warm [OF assms(1) True] sum_list_replicate)
next
  case False
  then have "k \<le> t" "int t \<le> nb" using assms(3) by simp_all
  then obtain s where s: "ucb_after e nb c rnd t = (None, s)" "bound_inv k s"
     "length (hist_A s) = t"
    using ucb_after_bound [OF assms(1,2), of t nb c rnd] by blast
  then show ?thesis by (auto simp: bound_inv_def mean_inv_def)
qed

lemma sum_list_others:
  fixes f :: "nat \<Rightarrow> real"
  assumes "A < n"
  shows "sum_list (map f (filter (\<lambda>a. a \<noteq> A) [0..<n])) = sum_list (map f [0..<n]) - f A"
proof -
  have "A \<in> set [0..<n]" using assms by simp
  then have "sum_list (map f [0..<n]) = f A + sum_list (map f (remove1 A [0..<n]))"
    by (rule sum_list_map_remove1)
  moreover have "remove1 A [0..<n] = filter (\<lambda>a. a \<noteq> A) [0..<n]"
    by (simp add: distinct_remove1_removeAll removeAll_filter_not_eq) metis
  ultimately show ?thesis by simp
qed

lemma sum_list_nth_upt:
  fixes ps :: "real list"
  shows "sum_list (map (\<lambda>a. d * ps ! a) [0..<length ps]) = d * sum_list ps"
proof -
  have "map (\<lambda>a. d * ps ! a) [0..<length ps] = map (\<lambda>p. d * p) ps"
    by (rule nth_equalityI) simp_all
  then show ?thesis by (simp add: sum_list_const_mult)
qed

lemma ucb_bandit_zero_actions:
  assumes "size_env e = 0"
  shows "ucb_bandit e nb c rnd =
     (if 0 < nb then (Inl ValueError, []) else (Inr ([], [], []), []))"
proof (cases "0 < nb")
  case True
  then have "py_range 0 nb = 0 # [1..<nat nb]"
    by (simp add: py_range_def upt_conv_Cons)
  then show ?thesis
    using True assms
    by (simp add: ucb_bandit_def np_zeros_def init_bandit_def ucb_step_def ucb_scores_def
        argmax_rand_empty py_range_def)
next
  case False
  then show ?thesis
    using assms
    by (simp add: ucb_bandit_def np_zeros_def init_bandit_def py_range_def)
qed

lemma gradient_bandit_zero_actions:
  assumes "size_env e = 0"
  shows "gradient_bandit e nb alpha baseline rnd =
     (if 0 < nb then (Inl ValueError, []) else (Inr ([], [], []), []))"
proof (cases "0 < nb")
  case True
  then have "py_range 0 nb = 0 # [1..<nat nb]"
    by (simp add: py_range_def upt_conv_Cons)
  then show ?thesis
    using True assms
    by (simp add: gradient_bandit_def np_zeros_def init_grad_def gradient_step_def
        softmax_empty)
next
  case False
  then show ?thesis
    using assms
    by (simp add: gradient_bandit_def np_zeros_def init_grad_def py_range_def)
qed

lemma gradient_bandit_no_steps:
  assumes "0 \<le> size_env e" and "nb \<le> 0"
  shows "gradient_bandit e nb alpha baseline rnd =
     (Inr (replicate (nat (size_env e)) 0, [], []), [])"
  using assms
  by (simp add: gradient_bandit_def np_zeros_def init_grad_def py_range_def)

lemma ucb_bandit_short_budget:
  assumes "size_env e = int k" and "nb \<le> int k"
  shows "ucb_bandit e nb c rnd =
     (Inr (map (\<lambda>a. reward e a a) [0..<k], [0..<k], map (\<lambda>a. reward e a a) [0..<k]), [0..<k])"
proof -
  have r: "py_range (int k) nb = []" using assms(2) by (simp add: py_range_def)
  have w: "for_loop (observe e) (py_range 0 (int k)) (init_bandit (replicate k 0) (replicate k 0)) =
     (None, \<lparr>hist_A = [0..<k], hist_R = map (\<lambda>a. reward e a a) [0..<k], calls = [0..<k],
             Q = map (\<lambda>a. reward e a a) [0..<k] @ replicate (k - k) 0,
             N = replicate k 1 @ replicate (k - k) 0\<rparr>)"
    using warmup_state [OF order_refl, of e k] by (simp add: py_range_def)
  show ?thesis
    by (simp add: ucb_bandit_def np_zeros_def assms(1) w r)
qed

section \<open>Runs on the deterministic environment\<close>

lemmas ev = ucb_bandit_def np_zeros_def py_range_def init_bandit_def observe_def step_def
  stub_env_def first_draw_def ucb_step_def ucb_scores_def argmax_rand_def random_choice_def
  randint_def flatnonzero_def upt_rec Let_def ucb_after_def numeral_2_eq_2 numeral_3_eq_3

lemma ucb_after_stub_3:
  "ucb_after stub_env 4 2 first_draw 3 =
     (None, \<lparr>hist_A = [0, 1, 0], hist_R = [1, 0, 1], calls = [0, 1, 0], Q = [1, 0], N = [2, 1]\<rparr>)"
  by (simp add: ev)



lemmas gev = gradient_after_def gradient_bandit_def np_zeros_def py_range_def init_grad_def
  gradient_step_def softmax_def choice_p_def rand_def searchsorted_right_def step_def
  stub_env_def first_draw_def upt_rec Let_def numeral_2_eq_2

lemma gradient_after_stub_0:
  "gradient_after stub_env 2 (1/10) True first_draw 0 =
     (None, \<lparr>hist_A = [], hist_R = [], calls = [], H = [0, 0], R_bar = 0, N_bar = 0\<rparr>)"
  by (simp add: gev)


lemma gradient_bandit_stub_1:
  "gradient_bandit stub_env 1 (1/10) True first_draw = (Inr ([1/20, -1/20], [0], [1]), [0])"
  by (simp add: gev)

lemma softmax_stub_0: "softmax [0, 0] = Inr [1/2, 1/2]"
  by (simp add: softmax_def)

section \<open>Histories, calls and lengths\<close>

lemma for_loop_invariant_set:
  assumes "P s"
    and "\<And>i s r s'. i \<in> set xs \<Longrightarrow> P s \<Longrightarrow> body i s = (r, s') \<Longrightarrow> P s'"
    and "for_loop body xs s = (r, s')"
  shows "P s'"
  using assms
proof (induction xs arbitrary: s)
  case Nil
  then show ?case by simp
next
  case (Cons i xs)
  obtain r1 s1 where b: "body i s = (r1, s1)" by (cases "body i s")
  have p1: "P s1" using Cons.prems(2) [of i s r1 s1] Cons.prems(1) b by simp
  show ?case
  proof (cases r1)
    case None
    have "for_loop body xs s1 = (r, s')" using Cons.prems(3) b None by simp
    then show ?thesis
      using Cons.IH [OF p1] Cons.prems(2) by (metis list.set_intros(2))
  next
    case (Some err)
    then show ?thesis using Cons.prems(3) b p1 by simp
  qed
qed

lemma for_loop_None_split:
  assumes "for_loop body (xs @ ys) s = (None, s')"
  shows "\<exists>s1. for_loop body xs s = (None, s1) \<and> for_loop body ys s1 = (None, s')"
  using assms
  by (auto simp: for_loop_append split: prod.splits option.splits)

lemma for_loop_None_take:
  assumes "for_loop body xs s = (None, s')"
  shows "\<exists>s1. for_loop body (take i xs) s = (None, s1) \<and> for_loop body (drop i xs) s1 = (None, s')"
  using for_loop_None_split [of body "take i xs" "drop i xs" s s'] assms by simp

lemma for_loop_appends:
  assumes "\<And>i s s'. body i s = (None, s') \<Longrightarrow> \<exists>x. h s' = h s @ [x]"
    and "for_loop body xs s = (None, s')"
  shows "\<exists>ys. h s' = h s @ ys \<and> length ys = length xs"
  using assms(2)
proof (induction xs arbitrary: s)
  case Nil
  then show ?case by simp
next
  case (Cons i xs)
  obtain r1 s1 where b: "body i s = (r1, s1)" by (cases "body i s")
  show ?case
  proof (cases r1)
    case None
    then obtain x where x: "h s1 = h s @ [x]" using assms(1) b by blast
    have "for_loop body xs s1 = (None, s')" using Cons.prems b None by simp
    then obtain ys where "h s' = h s1 @ ys" "length ys = length xs"
      using Cons.IH by blast
    then show ?thesis using x by simp
  next
    case (Some err)
    then show ?thesis using Cons.prems b by simp
  qed
qed





















section \<open>Runs on the second environment\<close>




lemma softmax_pair:
  assumes "b \<le> a"
  shows "softmax [a, b] = Inr [1 / (1 + exp (b - a)), exp (b - a) / (1 + exp (b - a))]"
  using assms by (simp add: softmax_def Let_def max_def)

lemma choice_p_pair_first:
  assumes "0 < p" and "0 \<le> q" and "p + q = 1"
  shows "choice_p 2 [p, q] 0 = Inr 0"
proof -
  have "\<not> (p \<le> 0)" using assms(1) by simp
  then show ?thesis
    using assms
    by (simp add: choice_p_def Let_def rand_def searchsorted_right_def)
qed

lemma softmax_pair_choice:
  "choice_p 2 [1 / (1 + exp x), exp x / (1 + exp x)] 0 = Inr 0"
proof (rule choice_p_pair_first)
  have pos: "0 < 1 + exp x" by (simp add: add_pos_pos)
  show "0 < 1 / (1 + exp x)" using pos by simp
  show "0 \<le> exp x / (1 + exp x)" using pos by simp
  show "1 / (1 + exp x) + exp x / (1 + exp x) = 1"
    using pos by (simp add: add_divide_distrib [symmetric])
qed

lemma gradient_step_pair:
  assumes "H s = [a, b]" and "b \<le> a" and "size_env e = 2" and "rnd t = 0"
  shows "gradient_step e alpha baseline rnd t s =
     (None, s\<lparr>hist_A := hist_A s @ [0],
               hist_R := hist_R s @ [reward e (length (calls s)) 0],
               calls := calls s @ [0],
               H := [a + alpha * (reward e (length (calls s)) 0 - R_bar s) * (1 - 1 / (1 + exp (b - a))),
                     b - alpha * (reward e (length (calls s)) 0 - R_bar s) * (exp (b - a) / (1 + exp (b - a)))],
               R_bar := (if baseline
                         then R_bar s + 1 / (N_bar s + 1) * (reward e (length (calls s)) 0 - R_bar s)
                         else R_bar s),
               N_bar := (if baseline then N_bar s + 1 else N_bar s)\<rparr>)"
proof -
  let ?ps = "[1 / (1 + exp (b - a)), exp (b - a) / (1 + exp (b - a))]"
  have sm: "softmax (H s) = Inr ?ps" using assms(1,2) by (simp add: softmax_pair)
  have ch: "choice_p (nat (size_env e)) ?ps (rnd t) = Inr 0"
    using softmax_pair_choice [of "b - a"] assms(3,4) by simp
  have al: "0 < length (H s)" using assms(1) by simp
  show ?thesis
    using gradient_step_ok [where rnd = rnd and t = t, OF sm ch al, of alpha baseline] assms(1)
    by simp
qed

lemma gradient_after_ramp_1:
  "gradient_after ramp_env 2 (1/10) True first_draw 1 =
     (None, \<lparr>hist_A = [0], hist_R = [1], calls = [0], H = [1/20, -1/20], R_bar = 1, N_bar = 1\<rparr>)"
  by (simp add: gradient_after_def np_zeros_def py_range_def init_grad_def
      gradient_step_def softmax_def choice_p_def rand_def searchsorted_right_def step_def
      ramp_env_def first_draw_def upt_rec Let_def numeral_2_eq_2)

lemma gradient_after_ramp_2:
  "gradient_after ramp_env 2 (1/10) True first_draw 2 =
     (None, \<lparr>hist_A = [0, 0], hist_R = [1, 2], calls = [0, 0],
             H = [1/20 + 1/10 * (2 - 1) * (1 - 1 / (1 + exp (- 1/20 - 1/20))),
                  - 1/20 - 1/10 * (2 - 1) * (exp (- 1/20 - 1/20) / (1 + exp (- 1/20 - 1/20)))],
             R_bar = 3/2, N_bar = 2\<rparr>)"
proof -
  have lt: "int (Suc 0) < 2" by simp
  have a1: "gradient_after ramp_env 2 (1/10) True first_draw (Suc 0) =
     (None, \<lparr>hist_A = [0], hist_R = [1], calls = [0], H = [1/20, -1/20], R_bar = 1, N_bar = 1\<rparr>)"
    using gradient_after_ramp_1 by simp
  have "gradient_after ramp_env 2 (1/10) True first_draw (Suc (Suc 0)) =
      gradient_step ramp_env (1/10) True first_draw (Suc 0)
        \<lparr>hist_A = [0], hist_R = [1], calls = [0], H = [1/20, -1/20], R_bar = 1, N_bar = 1\<rparr>"
    using gradient_after_Suc [OF lt, of ramp_env "1/10" True first_draw]
    by (simp only: a1 prod.case option.case)
  also have "\<dots> = (None, \<lparr>hist_A = [0, 0], hist_R = [1, 2], calls = [0, 0],
             H = [1/20 + 1/10 * (2 - 1) * (1 - 1 / (1 + exp (- 1/20 - 1/20))),
                  - 1/20 - 1/10 * (2 - 1) * (exp (- 1/20 - 1/20) / (1 + exp (- 1/20 - 1/20)))],
             R_bar = 3/2, N_bar = 2\<rparr>)"
    by (subst gradient_step_pair [where a = "1/20" and b = "-1/20"])
      (simp_all add: ramp_env_def first_draw_def)
  finally show ?thesis by (simp add: numeral_2_eq_2)
qed

lemma gradient_bandit_ramp_2:
  "gradient_bandit ramp_env 2 (1/10) True first_draw =
     (Inr ([1/20 + 1/10 * (2 - 1) * (1 - 1 / (1 + exp (- 1/20 - 1/20))),
            - 1/20 - 1/10 * (2 - 1) * (exp (- 1/20 - 1/20) / (1 + exp (- 1/20 - 1/20)))],
           [0, 0], [1, 2]), [0, 0])"
proof -
  have k: "0 \<le> size_env ramp_env" by (simp add: ramp_env_def)
  show ?thesis
    using gradient_after_ramp_2 by (simp add: gradient_bandit_after [OF k])
qed

section \<open>The invariants, with the histories tied to the calls\<close>



section \<open>Maxima in an arbitrary arithmetic\<close>

lemma fle_trans: "total_preorder ar \<Longrightarrow> fle ar x y \<Longrightarrow> fle ar y z \<Longrightarrow> fle ar x z"
  unfolding total_preorder_def by blast

lemma fle_total: "total_preorder ar \<Longrightarrow> fle ar x x \<Longrightarrow> fle ar y y \<Longrightarrow> fle ar x y \<or> fle ar y x"
  unfolding total_preorder_def by blast

lemma fle_refl: "total_preorder ar \<Longrightarrow> fle ar x y \<Longrightarrow> fle ar x x \<and> fle ar y y"
  unfolding total_preorder_def by blast

lemma fmaximum_ge:
  assumes "total_preorder ar" and "fle ar (fmaximum ar a b) (fmaximum ar a b)"
  shows "fle ar a (fmaximum ar a b) \<and> fle ar b (fmaximum ar a b)"
proof -
  have a: "fle ar a a" using assms(2) by (auto simp: fmaximum_def split: if_splits)
  have b: "fle ar b b" using assms(2) a by (auto simp: fmaximum_def split: if_splits)
  show ?thesis
    using a b fle_total [OF assms(1) a b] by (auto simp: fmaximum_def)
qed

lemma fold_fmaximum_ge:
  assumes "total_preorder ar"
    and "fle ar (fold (\<lambda>y m. fmaximum ar m y) xs x) (fold (\<lambda>y m. fmaximum ar m y) xs x)"
  shows "fle ar x (fold (\<lambda>y m. fmaximum ar m y) xs x)
     \<and> (\<forall>y\<in>set xs. fle ar y (fold (\<lambda>y m. fmaximum ar m y) xs x))"
  using assms(2)
proof (induction xs arbitrary: x)
  case Nil
  then show ?case by simp
next
  case (Cons y ys)
  let ?m = "fold (\<lambda>y m. fmaximum ar m y) ys (fmaximum ar x y)"
  have m: "fle ar ?m ?m" using Cons.prems by simp
  have ih: "fle ar (fmaximum ar x y) ?m" "\<forall>z\<in>set ys. fle ar z ?m"
    using Cons.IH [OF m] by simp_all
  have "fle ar (fmaximum ar x y) (fmaximum ar x y)"
    using fle_refl [OF assms(1) ih(1)] by simp
  then have "fle ar x (fmaximum ar x y)" "fle ar y (fmaximum ar x y)"
    using fmaximum_ge [OF assms(1)] by blast+
  then have "fle ar x ?m" "fle ar y ?m"
    using ih(1) fle_trans [OF assms(1)] by blast+
  then show ?case using ih(2) by simp
qed

lemma argmax_rand_fp_max:
  assumes "total_preorder ar" and "argmax_rand_fp ar arr d = Inr A"
  shows "A < length arr \<and> (\<forall>a<length arr. fle ar (arr ! a) (arr ! A))"
proof (cases arr)
  case Nil
  then show ?thesis using assms(2) by (simp add: argmax_rand_fp_def)
next
  case (Cons x xs)
  let ?m = "fold (\<lambda>y m. fmaximum ar m y) xs x"
  let ?c = "flatnonzero (map (\<lambda>x. feq ar x ?m) arr)"
  have r: "random_choice ?c d = Inr A"
    using assms(2) Cons by (simp add: argmax_rand_fp_def)
  then have ne: "?c \<noteq> []" by (auto simp: random_choice_def randint_def)
  then have "A = ?c ! (d mod length ?c)"
    using r by (simp add: random_choice_def randint_def)
  then have "A \<in> set ?c" using ne by simp
  then have A: "A < length arr" "feq ar (arr ! A) ?m"
    by (auto simp: flatnonzero_def)
  have mm: "fle ar ?m ?m" using A(2) fle_refl [OF assms(1)] by (auto simp: feq_def)
  have ge: "fle ar x ?m" "\<forall>y\<in>set xs. fle ar y ?m"
    using fold_fmaximum_ge [OF assms(1) mm] by simp_all
  have "fle ar (arr ! a) (arr ! A)" if "a < length arr" for a
  proof -
    have "arr ! a \<in> set arr" using that by simp
    then have "fle ar (arr ! a) ?m" using ge Cons by auto
    moreover have "fle ar ?m (arr ! A)" using A(2) by (simp add: feq_def)
    ultimately show ?thesis using fle_trans [OF assms(1)] by blast
  qed
  then show ?thesis using A(1) by blast
qed

lemma argmax_rand_fp_in_range:
  assumes "argmax_rand_fp ar arr d = Inr A"
  shows "A < length arr"
proof (cases arr)
  case Nil
  then show ?thesis using assms by (simp add: argmax_rand_fp_def)
next
  case (Cons x xs)
  let ?m = "fold (\<lambda>y m. fmaximum ar m y) xs x"
  let ?c = "flatnonzero (map (\<lambda>x. feq ar x ?m) arr)"
  have r: "random_choice ?c d = Inr A"
    using assms Cons by (simp add: argmax_rand_fp_def)
  then have ne: "?c \<noteq> []" by (auto simp: random_choice_def randint_def)
  then have "A = ?c ! (d mod length ?c)"
    using r by (simp add: random_choice_def randint_def)
  then have "A \<in> set ?c" using ne by simp
  then show ?thesis by (auto simp: flatnonzero_def)
qed

lemma observe_fp_cases:
  "observe_fp ar e A s =
     (if A < length (N_fp s) \<and> A < length (Q_fp s) then
        (None, s\<lparr>hist_A_fp := hist_A_fp s @ [A],
                  hist_R_fp := hist_R_fp s @ [reward_fp e (length (calls_fp s)) A],
                  calls_fp := calls_fp s @ [A],
                  Q_fp := (Q_fp s)[A := fadd ar (Q_fp s ! A)
                     (fmul ar (fdiv ar (fnat ar 1) (fadd ar (N_fp s ! A) (fnat ar 1)))
                        (fsub ar (reward_fp e (length (calls_fp s)) A) (Q_fp s ! A)))],
                  N_fp := (N_fp s)[A := fadd ar (N_fp s ! A) (fnat ar 1)]\<rparr>)
      else (Some IndexError, s\<lparr>calls_fp := calls_fp s @ [A]\<rparr>))"
  by (simp add: observe_fp_def step_fp_def Let_def)

lemma observe_fp_shape:
  assumes "shape_fp k s" and "A < k" and "observe_fp ar e A s = (r, s')"
  shows "r = None \<and> shape_fp k s' \<and> hist_A_fp s' = hist_A_fp s @ [A]
     \<and> hist_R_fp s' = hist_R_fp s @ [reward_fp e (length (hist_A_fp s)) A]"
  using assms by (auto simp: observe_fp_cases shape_fp_def split: if_splits)

lemma ucb_step_fp_shape:
  assumes "shape_fp k s" and "ucb_step_fp ar e c rnd t s = (r, s')"
  shows "shape_fp k s'"
proof (cases "argmax_rand_fp ar (ucb_scores_fp ar c t s) (rnd t)")
  case (Inl err)
  then show ?thesis using assms by (simp add: ucb_step_fp_def)
next
  case (Inr A)
  have "A < k"
    using argmax_rand_fp_in_range [OF Inr] assms(1) by (simp add: ucb_scores_fp_def shape_fp_def)
  moreover have "observe_fp ar e A s = (r, s')" using assms(2) Inr by (simp add: ucb_step_fp_def)
  ultimately show ?thesis using observe_fp_shape [OF assms(1)] by blast
qed

lemma ucb_step_fp_None:
  assumes "shape_fp k s" and "ucb_step_fp ar e c rnd t s = (None, s')"
  shows "\<exists>A. argmax_rand_fp ar (ucb_scores_fp ar c t s) (rnd t) = Inr A \<and> A < k
     \<and> hist_A_fp s' = hist_A_fp s @ [A]
     \<and> hist_R_fp s' = hist_R_fp s @ [reward_fp e (length (hist_A_fp s)) A]"
proof (cases "argmax_rand_fp ar (ucb_scores_fp ar c t s) (rnd t)")
  case (Inl err)
  then show ?thesis using assms by (simp add: ucb_step_fp_def)
next
  case (Inr A)
  have a: "A < k"
    using argmax_rand_fp_in_range [OF Inr] assms(1) by (simp add: ucb_scores_fp_def shape_fp_def)
  have o: "observe_fp ar e A s = (None, s')" using assms(2) Inr by (simp add: ucb_step_fp_def)
  show ?thesis using observe_fp_shape [OF assms(1) a o] Inr a by blast
qed

lemma nth_ucb_scores_fp:
  assumes "shape_fp k s" and "a < k"
  shows "ucb_scores_fp ar c t s ! a =
     fadd ar (Q_fp s ! a) (fmul ar c (fsqrt ar (fdiv ar (flog ar (fnat ar t)) (N_fp s ! a))))"
  using assms by (simp add: ucb_scores_fp_def shape_fp_def)

lemma length_ucb_scores_fp: "shape_fp k s \<Longrightarrow> length (ucb_scores_fp ar c t s) = k"
  by (simp add: ucb_scores_fp_def shape_fp_def)

section \<open>Runs in an arbitrary arithmetic\<close>

lemma observe_fp_appends:
  assumes "observe_fp ar e A s = (None, s')"
  shows "hist_A_fp s' = hist_A_fp s @ [A]"
    and "\<exists>R. hist_R_fp s' = hist_R_fp s @ [R]"
  using assms by (auto simp: observe_fp_cases split: if_splits)

lemma ucb_step_fp_appends:
  assumes "ucb_step_fp ar e c rnd t s = (None, s')"
  shows "\<exists>A. hist_A_fp s' = hist_A_fp s @ [A]"
    and "\<exists>R. hist_R_fp s' = hist_R_fp s @ [R]"
  using assms observe_fp_appends [of ar e _ s s']
  by (auto simp: ucb_step_fp_def split: sum.splits)

lemma init_shape_fp: "shape_fp k (init_bandit_fp (replicate k z) (replicate k z))"
  by (simp add: shape_fp_def init_bandit_fp_def)

lemma ucb_fp_run:
  assumes "ucb_bandit_fp ar e nb c rnd = (Inr (Qf, hA, hR), cs)"
    and "size_fp e = int k" and "k \<le> t" and "int t \<le> nb"
  shows "\<exists>s. ucb_after_fp ar e nb c rnd t = (None, s) \<and> shape_fp k s
     \<and> hist_A_fp s = take t hA \<and> hist_R_fp s = take t hR \<and> length (hist_A_fp s) = t
     \<and> length hA = nat nb \<and> length hR = nat nb \<and> cs = hA
     \<and> (t = nat nb \<longrightarrow> Q_fp s = Qf)"
proof -
  let ?z = "replicate k (fnat ar 0)"
  let ?init = "init_bandit_fp ?z ?z"
  obtain r1 s1 where w: "for_loop (observe_fp ar e) (py_range 0 (int k)) ?init = (r1, s1)"
    by (cases "for_loop (observe_fp ar e) (py_range 0 (int k)) ?init")
  have r1: "r1 = None"
    using assms(1,2) w by (cases r1) (simp_all add: ucb_bandit_fp_def np_zeros_fp_def)
  obtain r2 s2 where b: "for_loop (ucb_step_fp ar e c rnd) (py_range (int k) nb) s1 = (r2, s2)"
    by (cases "for_loop (ucb_step_fp ar e c rnd) (py_range (int k) nb) s1")
  have r2: "r2 = None" and res: "Q_fp s2 = Qf" "hist_A_fp s2 = hA" "hist_R_fp s2 = hR"
      "calls_fp s2 = cs"
    using assms(1,2) w b r1 by (cases r2; simp add: ucb_bandit_fp_def np_zeros_fp_def)+
  have sh1: "shape_fp k s1"
  proof (rule for_loop_invariant_set [where P = "shape_fp k", OF init_shape_fp _ w])
    fix i s r s'
    assume "i \<in> set (py_range 0 (int k))" and p: "shape_fp k s"
      and o: "observe_fp ar e i s = (r, s')"
    then have "i < k" by (simp add: py_range_def)
    then show "shape_fp k s'" using observe_fp_shape [OF p _ o] by blast
  qed
  obtain ys where ys: "hist_A_fp s1 = hist_A_fp ?init @ ys" "length ys = length (py_range 0 (int k))"
    using for_loop_appends [where h = hist_A_fp and body = "observe_fp ar e", OF _ w [unfolded r1]]
      observe_fp_appends(1) by blast
  have l1: "length (hist_A_fp s1) = k"
    using ys by (simp add: init_bandit_fp_def length_py_range)
  obtain st where st: "for_loop (ucb_step_fp ar e c rnd) (take (t - k) (py_range (int k) nb)) s1
        = (None, st)"
      "for_loop (ucb_step_fp ar e c rnd) (drop (t - k) (py_range (int k) nb)) st = (None, s2)"
    using for_loop_None_take [OF b [unfolded r2], of "t - k"] by blast
  have a: "ucb_after_fp ar e nb c rnd t = (None, st)"
    using w r1 st(1) assms(2,3) by (simp add: ucb_after_fp_def length_py_range)
  have sht: "shape_fp k st"
    by (rule for_loop_invariant [where P = "shape_fp k", OF sh1 _ st(1)])
      (rule ucb_step_fp_shape)
  have sh2: "shape_fp k s2"
    by (rule for_loop_invariant [where P = "shape_fp k", OF sht _ st(2)])
      (rule ucb_step_fp_shape)
  have apA: "\<And>i s s'. ucb_step_fp ar e c rnd i s = (None, s')
      \<Longrightarrow> \<exists>x. hist_A_fp s' = hist_A_fp s @ [x]"
    by (rule ucb_step_fp_appends(1))
  have apR: "\<And>i s s'. ucb_step_fp ar e c rnd i s = (None, s')
      \<Longrightarrow> \<exists>x. hist_R_fp s' = hist_R_fp s @ [x]"
    by (rule ucb_step_fp_appends(2))
  have "\<exists>zs. hist_A_fp st = hist_A_fp s1 @ zs
      \<and> length zs = length (take (t - k) (py_range (int k) nb))"
    by (rule for_loop_appends [where h = hist_A_fp, OF _ st(1)]) (rule apA)
  then obtain zs where zs: "hist_A_fp st = hist_A_fp s1 @ zs"
      "length zs = length (take (t - k) (py_range (int k) nb))" by blast
  have tl: "t \<le> nat nb" using assms(4) by linarith
  have lt: "length (hist_A_fp st) = t"
    using zs l1 tl assms(3) by (simp add: length_py_range)
  have "\<exists>us. hist_A_fp s2 = hist_A_fp st @ us
      \<and> length us = length (drop (t - k) (py_range (int k) nb))"
    by (rule for_loop_appends [where h = hist_A_fp, OF _ st(2)]) (rule apA)
  then obtain us where us: "hist_A_fp s2 = hist_A_fp st @ us"
      "length us = length (drop (t - k) (py_range (int k) nb))" by blast
  have "\<exists>vs. hist_R_fp s2 = hist_R_fp st @ vs
      \<and> length vs = length (drop (t - k) (py_range (int k) nb))"
    by (rule for_loop_appends [where h = hist_R_fp, OF _ st(2)]) (rule apR)
  then obtain vs where vs: "hist_R_fp s2 = hist_R_fp st @ vs" by blast
  have lr: "length (hist_R_fp st) = t" using sht lt by (simp add: shape_fp_def)
  have l2: "length (hist_A_fp s2) = nat nb"
    using us lt tl assms(3) by (simp add: length_py_range)
  have l2r: "length (hist_R_fp s2) = nat nb" using sh2 l2 by (simp add: shape_fp_def)
  have c2: "calls_fp s2 = hist_A_fp s2" using sh2 by (simp add: shape_fp_def)
  have fin: "t = nat nb \<longrightarrow> Q_fp st = Qf"
    using st(2) res(1) by (auto simp: length_py_range)
  show ?thesis
    using a sht us vs lt lr l2 l2r c2 res fin by auto
qed

lemma ucb_after_fp_Suc:
  assumes "size_fp e = int k" and "k \<le> t" and "int t < nb"
  shows "ucb_after_fp ar e nb c rnd (Suc t) =
     (case ucb_after_fp ar e nb c rnd t of
        (Some err, s) \<Rightarrow> (Some err, s)
      | (None, s) \<Rightarrow> ucb_step_fp ar e c rnd t s)"
proof -
  have i: "t - k < length (py_range (int k) nb)"
    using assms by (simp add: py_range_def)
  have n: "py_range (int k) nb ! (t - k) = t"
    using assms i by (simp add: py_range_def)
  have "for_loop (ucb_step_fp ar e c rnd) (take (Suc (t - k)) (py_range (int k) nb)) s1 =
     (case for_loop (ucb_step_fp ar e c rnd) (take (t - k) (py_range (int k) nb)) s1 of
        (Some err, s') \<Rightarrow> (Some err, s')
      | (None, s') \<Rightarrow> ucb_step_fp ar e c rnd t s')" for s1
    using for_loop_take_Suc [OF i, of "ucb_step_fp ar e c rnd" s1] unfolding n .
  note step = this
  have tk: "take t (py_range 0 (int k)) = py_range 0 (int k)"
      "take (Suc t) (py_range 0 (int k)) = py_range 0 (int k)"
    using assms(2) by (simp_all add: length_py_range)
  obtain r1 s1 where w: "for_loop (observe_fp ar e) (py_range 0 (int k))
      (init_bandit_fp (replicate k (fnat ar 0)) (replicate k (fnat ar 0))) = (r1, s1)"
    by (cases "for_loop (observe_fp ar e) (py_range 0 (int k))
      (init_bandit_fp (replicate k (fnat ar 0)) (replicate k (fnat ar 0)))")
  show ?thesis
    unfolding ucb_after_fp_def Let_def assms(1) nat_int tk w
    using step [of s1] assms(2)
    by (cases r1) (simp_all add: Suc_diff_le)
qed

lemma softmax_fp_length: "softmax_fp ar x = Inr ps \<Longrightarrow> length ps = length x"
  by (cases x) (auto simp: softmax_fp_def Let_def)

lemma gradient_step_fp_None:
  assumes "gradient_step_fp ar choice e alpha baseline rnd t s = (None, s')"
  shows "\<exists>ps A. softmax_fp ar (H_fp s) = Inr ps
     \<and> choice (nat (size_fp e)) ps (rnd t) = Inr A \<and> A < length (H_fp s)
     \<and> s' = s\<lparr>hist_A_fp := hist_A_fp s @ [A],
               hist_R_fp := hist_R_fp s @ [reward_fp e (length (calls_fp s)) A],
               calls_fp := calls_fp s @ [A],
               H_fp := (map2 (\<lambda>h p. fsub ar h
                           (fmul ar (fmul ar alpha
                              (fsub ar (reward_fp e (length (calls_fp s)) A) (R_bar_fp s))) p))
                         (H_fp s) ps)
                      [A := fadd ar (H_fp s ! A)
                         (fmul ar (fmul ar alpha
                            (fsub ar (reward_fp e (length (calls_fp s)) A) (R_bar_fp s)))
                            (fsub ar (fnat ar 1) (ps ! A)))],
               R_bar_fp := (if baseline
                         then fadd ar (R_bar_fp s)
                           (fmul ar (fdiv ar (fnat ar 1) (fadd ar (N_bar_fp s) (fnat ar 1)))
                              (fsub ar (reward_fp e (length (calls_fp s)) A) (R_bar_fp s)))
                         else R_bar_fp s),
               N_bar_fp := (if baseline then fadd ar (N_bar_fp s) (fnat ar 1)
                            else N_bar_fp s)\<rparr>"
  using assms
  by (auto simp: gradient_step_fp_def step_fp_def Let_def dest: softmax_fp_length
      split: sum.splits if_splits)

lemma for_loop_invariant_None:
  assumes "P s"
    and "\<And>i s s'. P s \<Longrightarrow> body i s = (None, s') \<Longrightarrow> P s'"
    and "for_loop body xs s = (None, s')"
  shows "P s'"
  using assms(1,3)
proof (induction xs arbitrary: s)
  case Nil
  then show ?case by simp
next
  case (Cons i xs)
  obtain r1 s1 where b: "body i s = (r1, s1)" by (cases "body i s")
  show ?case
  proof (cases r1)
    case None
    have "P s1" using assms(2) Cons.prems(1) b None by blast
    moreover have "for_loop body xs s1 = (None, s')" using Cons.prems(2) b None by simp
    ultimately show ?thesis using Cons.IH by blast
  next
    case (Some err)
    then show ?thesis using Cons.prems(2) b by simp
  qed
qed

lemma gradient_step_fp_shape:
  assumes "gshape_fp k s" and "gradient_step_fp ar choice e alpha baseline rnd t s = (None, s')"
  shows "gshape_fp k s'"
  using gradient_step_fp_None [OF assms(2)] assms(1)
  by (auto simp: gshape_fp_def dest: softmax_fp_length)

lemma gradient_step_fp_appends:
  assumes "gradient_step_fp ar choice e alpha baseline rnd t s = (None, s')"
  shows "\<exists>A. hist_A_fp s' = hist_A_fp s @ [A]"
    and "\<exists>R. hist_R_fp s' = hist_R_fp s @ [R]"
  using gradient_step_fp_None [OF assms] by auto

lemma init_gshape_fp: "gshape_fp k (init_grad_fp ar (replicate k z))"
  by (simp add: gshape_fp_def init_grad_fp_def)

lemma gradient_fp_run:
  assumes "gradient_bandit_fp ar choice e nb alpha baseline rnd = (Inr (Hf, hA, hR), cs)"
    and "size_fp e = int k" and "int t \<le> nb"
  shows "\<exists>s. gradient_after_fp ar choice e nb alpha baseline rnd t = (None, s)
     \<and> gshape_fp k s
     \<and> hist_A_fp s = take t hA \<and> hist_R_fp s = take t hR \<and> length (hist_A_fp s) = t
     \<and> length hA = nat nb \<and> length hR = nat nb \<and> cs = hA
     \<and> (t = nat nb \<longrightarrow> H_fp s = Hf)
     \<and> (t = 0 \<longrightarrow> R_bar_fp s = fnat ar 0 \<and> N_bar_fp s = fnat ar 0
           \<and> H_fp s = replicate k (fnat ar 0))"
proof -
  let ?body = "gradient_step_fp ar choice e alpha baseline rnd"
  let ?init = "init_grad_fp ar (replicate k (fnat ar 0))"
  obtain r2 s2 where b: "for_loop ?body (py_range 0 nb) ?init = (r2, s2)"
    by (cases "for_loop ?body (py_range 0 nb) ?init")
  have r2: "r2 = None" and res: "H_fp s2 = Hf" "hist_A_fp s2 = hA" "hist_R_fp s2 = hR"
      "calls_fp s2 = cs"
    using assms(1,2) b by (cases r2; simp add: gradient_bandit_fp_def np_zeros_fp_def)+
  obtain st where st: "for_loop ?body (take t (py_range 0 nb)) ?init = (None, st)"
      "for_loop ?body (drop t (py_range 0 nb)) st = (None, s2)"
    using for_loop_None_take [OF b [unfolded r2], of t] by blast
  have a: "gradient_after_fp ar choice e nb alpha baseline rnd t = (None, st)"
    using st(1) assms(2) by (simp add: gradient_after_fp_def)
  have sht: "gshape_fp k st"
    by (rule for_loop_invariant_None [where P = "gshape_fp k", OF init_gshape_fp _ st(1)])
      (rule gradient_step_fp_shape)
  have sh2: "gshape_fp k s2"
    by (rule for_loop_invariant_None [where P = "gshape_fp k", OF sht _ st(2)])
      (rule gradient_step_fp_shape)
  have apA: "\<And>i s s'. ?body i s = (None, s') \<Longrightarrow> \<exists>x. hist_A_fp s' = hist_A_fp s @ [x]"
    by (rule gradient_step_fp_appends(1))
  have apR: "\<And>i s s'. ?body i s = (None, s') \<Longrightarrow> \<exists>x. hist_R_fp s' = hist_R_fp s @ [x]"
    by (rule gradient_step_fp_appends(2))
  have "\<exists>zs. hist_A_fp st = hist_A_fp ?init @ zs
      \<and> length zs = length (take t (py_range 0 nb))"
    by (rule for_loop_appends [where h = hist_A_fp, OF _ st(1)]) (rule apA)
  then obtain zs where zs: "hist_A_fp st = hist_A_fp ?init @ zs"
      "length zs = length (take t (py_range 0 nb))" by blast
  have tl: "t \<le> nat nb" using assms(3) by linarith
  have lt: "length (hist_A_fp st) = t"
    using zs tl by (simp add: length_py_range init_grad_fp_def)
  have "\<exists>us. hist_A_fp s2 = hist_A_fp st @ us
      \<and> length us = length (drop t (py_range 0 nb))"
    by (rule for_loop_appends [where h = hist_A_fp, OF _ st(2)]) (rule apA)
  then obtain us where us: "hist_A_fp s2 = hist_A_fp st @ us"
      "length us = length (drop t (py_range 0 nb))" by blast
  have "\<exists>vs. hist_R_fp s2 = hist_R_fp st @ vs
      \<and> length vs = length (drop t (py_range 0 nb))"
    by (rule for_loop_appends [where h = hist_R_fp, OF _ st(2)]) (rule apR)
  then obtain vs where vs: "hist_R_fp s2 = hist_R_fp st @ vs" by blast
  have lr: "length (hist_R_fp st) = t" using sht lt by (simp add: gshape_fp_def)
  have l2: "length (hist_A_fp s2) = nat nb"
    using us lt tl by (simp add: length_py_range)
  have l2r: "length (hist_R_fp s2) = nat nb" using sh2 l2 by (simp add: gshape_fp_def)
  have c2: "calls_fp s2 = hist_A_fp s2" using sh2 by (simp add: gshape_fp_def)
  have fin: "t = nat nb \<longrightarrow> H_fp st = Hf"
    using st(2) res(1) by (auto simp: length_py_range)
  have ini: "t = 0 \<longrightarrow> R_bar_fp st = fnat ar 0 \<and> N_bar_fp st = fnat ar 0
           \<and> H_fp st = replicate k (fnat ar 0)"
    using st(1) by (auto simp: init_grad_fp_def)
  show ?thesis
    using a sht us vs lt lr l2 l2r c2 res fin ini by auto
qed

lemma gradient_after_fp_Suc:
  assumes "int t < nb"
  shows "gradient_after_fp ar choice e nb alpha baseline rnd (Suc t) =
     (case gradient_after_fp ar choice e nb alpha baseline rnd t of
        (Some err, s) \<Rightarrow> (Some err, s)
      | (None, s) \<Rightarrow> gradient_step_fp ar choice e alpha baseline rnd t s)"
proof -
  have i: "t < length (py_range 0 nb)" and n: "py_range 0 nb ! t = t"
    using nth_py_range_0 [OF assms] by simp_all
  show ?thesis
    unfolding gradient_after_fp_def
    using for_loop_take_Suc [OF i, of "gradient_step_fp ar choice e alpha baseline rnd"]
    unfolding n by simp
qed











section \<open>Exact arithmetic\<close>

lemma exact_simps [simp]:
  "fnat exact = real" "fadd exact = (+)" "fsub exact = (-)" "fmul exact = (*)"
  "fdiv exact = (/)" "fsqrt exact = sqrt" "flog exact = ln" "fexp exact = exp"
  "fsum exact = sum_list" "fle exact = (\<le>)"
  by (simp_all add: exact_def)

lemma total_preorder_exact: "total_preorder exact"
  by (auto simp: total_preorder_def)

lemma feq_exact [simp]: "feq exact x y \<longleftrightarrow> x = y"
  by (auto simp: feq_def)

lemma fmaximum_exact [simp]: "fmaximum exact a b = max a b"
  by (simp add: fmaximum_def max_def)

lemma sqrt_ln_3: "sqrt (ln 3 / 2) < sqrt (ln 3)" "sqrt (ln 3 / 2) \<noteq> sqrt (ln 3)"
proof -
  have "0 < ln (3::real)" by simp
  then show "sqrt (ln 3 / 2) < sqrt (ln 3)" by simp
  then show "sqrt (ln 3 / 2) \<noteq> sqrt (ln 3)" by simp
qed

lemmas fev = ucb_bandit_fp_def np_zeros_fp_def py_range_def init_bandit_fp_def observe_fp_def
  step_fp_def null_env_def first_draw_def ucb_step_fp_def ucb_scores_fp_def argmax_rand_fp_def
  random_choice_def randint_def flatnonzero_def upt_rec Let_def ucb_after_fp_def
  numeral_2_eq_2 numeral_3_eq_3

lemma ucb_after_fp_null_3:
  "ucb_after_fp exact null_env 4 1 first_draw 3 =
     (None, \<lparr>hist_A_fp = [0, 1, 0], hist_R_fp = [0, 0, 0], calls_fp = [0, 1, 0],
             Q_fp = [0, 0], N_fp = [2, 1]\<rparr>)"
  by (simp add: fev)

lemma ucb_bandit_fp_null_4:
  "ucb_bandit_fp exact null_env 4 1 first_draw =
     (Inr ([0, 0], [0, 1, 0, 1], [0, 0, 0, 0]), [0, 1, 0, 1])"
  using sqrt_ln_3 by (simp add: fev eval_nat_numeral max_def)

lemma for_loop_map:
  assumes "\<And>i s. map_prod id f (body i s) = body' i (f s)"
  shows "map_prod id f (for_loop body xs s) = for_loop body' xs (f s)"
proof (induction xs arbitrary: s)
  case Nil
  then show ?case by simp
next
  case (Cons i xs)
  obtain r1 s1 where b: "body i s = (r1, s1)" by (cases "body i s")
  then have b': "body' i (f s) = (r1, f s1)" using assms [of i s] by simp
  show ?case using b b' Cons.IH by (cases r1) simp_all
qed

lemma arr_max_fp_exact: "arr_max_fp exact xs = arr_max xs"
proof (cases xs)
  case Nil
  then show ?thesis by simp
next
  case (Cons x ys)
  have "(\<lambda>y m. fmaximum exact m y) = (max :: real \<Rightarrow> real \<Rightarrow> real)"
    by (intro ext) (simp add: max.commute)
  then show ?thesis using Cons by simp
qed

lemma softmax_fp_exact: "softmax_fp exact x = softmax x"
  by (simp add: softmax_fp_def softmax_def arr_max_fp_exact Let_def
      split: sum.splits)

lemma argmax_rand_fp_exact: "argmax_rand_fp exact arr d = argmax_rand arr d"
  by (simp add: argmax_rand_fp_def argmax_rand_def arr_max_fp_exact split: sum.splits)

lemma gradient_step_fp_exact:
  "map_prod id grad_of (gradient_step_fp exact choice_p e alpha baseline rnd t s) =
     gradient_step (env_of e) alpha baseline rnd t (grad_of s)"
  by (simp add: gradient_step_fp_def gradient_step_def softmax_fp_exact step_fp_def step_def
      grad_of_def env_of_def Let_def split: sum.splits)

lemma gradient_after_fp_exact:
  "map_prod id grad_of (gradient_after_fp exact choice_p e nb alpha baseline rnd t) =
     gradient_after (env_of e) nb alpha baseline rnd t"
proof -
  have "grad_of (init_grad_fp exact (replicate (nat (size_fp e)) (fnat exact 0))) =
      init_grad (replicate (nat (size_env (env_of e))) 0)"
    by (simp add: grad_of_def init_grad_fp_def init_grad_def env_of_def)
  then show ?thesis
    unfolding gradient_after_fp_def gradient_after_def
    using for_loop_map [where f = grad_of
        and body = "gradient_step_fp exact choice_p e alpha baseline rnd"
        and body' = "gradient_step (env_of e) alpha baseline rnd", OF gradient_step_fp_exact]
    by simp
qed

lemma gradient_bandit_fp_exact:
  "gradient_bandit_fp exact choice_p e nb alpha baseline rnd =
     gradient_bandit (env_of e) nb alpha baseline rnd"
proof (cases "size_fp e < 0")
  case True
  then show ?thesis
    by (simp add: gradient_bandit_fp_def gradient_bandit_def np_zeros_fp_def np_zeros_def
        env_of_def)
next
  case False
  let ?i = "init_grad_fp exact (replicate (nat (size_fp e)) 0)"
  obtain r s where l: "for_loop (gradient_step_fp exact choice_p e alpha baseline rnd)
      (py_range 0 nb) ?i = (r, s)"
    by (cases "for_loop (gradient_step_fp exact choice_p e alpha baseline rnd)
      (py_range 0 nb) ?i")
  have i: "grad_of ?i = init_grad (replicate (nat (size_fp e)) 0)"
    by (simp add: grad_of_def init_grad_fp_def init_grad_def)
  have "for_loop (gradient_step (env_of e) alpha baseline rnd) (py_range 0 nb)
      (init_grad (replicate (nat (size_fp e)) 0)) = (r, grad_of s)"
    using for_loop_map [where f = grad_of
        and body = "gradient_step_fp exact choice_p e alpha baseline rnd"
        and body' = "gradient_step (env_of e) alpha baseline rnd", OF gradient_step_fp_exact,
        of "py_range 0 nb" ?i] l i by simp
  then show ?thesis
    using False l
    by (cases r) (simp_all add: gradient_bandit_fp_def gradient_bandit_def np_zeros_fp_def
        np_zeros_def env_of_def grad_of_def)
qed

lemma observe_fp_exact:
  "map_prod id bandit_of (observe_fp exact e A s) = observe (env_of e) A (bandit_of s)"
  by (simp add: observe_fp_def observe_def step_fp_def step_def bandit_of_def env_of_def
      Let_def)

lemma ucb_scores_fp_exact: "ucb_scores_fp exact c t s = ucb_scores c t (bandit_of s)"
  by (simp add: ucb_scores_fp_def ucb_scores_def bandit_of_def)

lemma ucb_step_fp_exact:
  "map_prod id bandit_of (ucb_step_fp exact e c rnd t s) =
     ucb_step (env_of e) c rnd t (bandit_of s)"
  using observe_fp_exact [of e _ s]
  by (simp add: ucb_step_fp_def ucb_step_def ucb_scores_fp_exact argmax_rand_fp_exact
      split: sum.splits)

lemma env_of_ramp: "env_of ramp_env_fp = ramp_env"
  by (simp add: env_of_def ramp_env_fp_def ramp_env_def)

lemma gradient_bandit_fp_ramp_2:
  "gradient_bandit_fp exact choice_p ramp_env_fp 2 (1/10) True first_draw =
     (Inr ([1/20 + 1/10 * (2 - 1) * (1 - 1 / (1 + exp (- 1/20 - 1/20))),
            - 1/20 - 1/10 * (2 - 1) * (exp (- 1/20 - 1/20) / (1 + exp (- 1/20 - 1/20)))],
           [0, 0], [1, 2]), [0, 0])"
  by (simp only: gradient_bandit_fp_exact env_of_ramp gradient_bandit_ramp_2)

lemma ucb_bandit_fp_exact:
  "ucb_bandit_fp exact e nb c rnd = ucb_bandit (env_of e) nb c rnd"
proof (cases "size_fp e < 0")
  case True
  then show ?thesis
    by (simp add: ucb_bandit_fp_def ucb_bandit_def np_zeros_fp_def np_zeros_def env_of_def)
next
  case False
  let ?z = "replicate (nat (size_fp e)) (0::real)"
  obtain r1 s1 where w: "for_loop (observe_fp exact e) (py_range 0 (size_fp e))
      (init_bandit_fp ?z ?z) = (r1, s1)"
    by (cases "for_loop (observe_fp exact e) (py_range 0 (size_fp e)) (init_bandit_fp ?z ?z)")
  have i: "bandit_of (init_bandit_fp ?z ?z) = init_bandit ?z ?z"
    by (simp add: bandit_of_def init_bandit_fp_def init_bandit_def)
  have w': "for_loop (observe (env_of e)) (py_range 0 (size_fp e)) (init_bandit ?z ?z)
      = (r1, bandit_of s1)"
    using for_loop_map [where f = bandit_of and body = "observe_fp exact e"
        and body' = "observe (env_of e)", OF observe_fp_exact,
        of "py_range 0 (size_fp e)" "init_bandit_fp ?z ?z"] w i by simp
  obtain r2 s2 where b: "for_loop (ucb_step_fp exact e c rnd) (py_range (size_fp e) nb) s1
      = (r2, s2)"
    by (cases "for_loop (ucb_step_fp exact e c rnd) (py_range (size_fp e) nb) s1")
  have b': "for_loop (ucb_step (env_of e) c rnd) (py_range (size_fp e) nb) (bandit_of s1)
      = (r2, bandit_of s2)"
    using for_loop_map [where f = bandit_of and body = "ucb_step_fp exact e c rnd"
        and body' = "ucb_step (env_of e) c rnd", OF ucb_step_fp_exact,
        of "py_range (size_fp e) nb" s1] b by simp
  have sz: "size_env (env_of e) = size_fp e" by (simp add: env_of_def)
  show ?thesis
    using False w w' b b'
    by (cases r1; cases r2)
      (simp_all add: ucb_bandit_fp_def ucb_bandit_def np_zeros_fp_def np_zeros_def sz
        bandit_of_def)
qed

lemma gradient_after_fp_ramp_1:
  "gradient_after_fp exact choice_p ramp_env_fp 2 (1/10) True first_draw (Suc 0) =
     (None, \<lparr>hist_A_fp = [0], hist_R_fp = [1], calls_fp = [0], H_fp = [1/20, -1/20],
             R_bar_fp = 1, N_bar_fp = 1\<rparr>)"
  by (simp add: gradient_after_fp_def py_range_def init_grad_fp_def
      gradient_step_fp_def softmax_fp_def choice_p_def rand_def searchsorted_right_def step_fp_def
      ramp_env_fp_def first_draw_def upt_rec Let_def numeral_2_eq_2)



section \<open>Double precision\<close>

lemma floor_log2_eq:
  assumes "2 powi e \<le> \<bar>x\<bar>" and "\<bar>x\<bar> < 2 powi (e + 1)"
  shows "\<lfloor>log 2 \<bar>x\<bar>\<rfloor> = e"
proof -
  have pos: "0 < \<bar>x\<bar>" using assms(1) by (smt (verit) zero_less_power_int)
  have "2 powr (of_int e) \<le> \<bar>x\<bar>" using assms(1) by (simp add: powr_real_of_int')
  moreover have "\<bar>x\<bar> < 2 powr (of_int e + 1)"
    using assms(2) powr_real_of_int' [of 2 "e + 1"] by simp
  ultimately show ?thesis
    using pos by (simp add: floor_log_eq_powr_iff)
qed

lemma fl_eval:
  assumes "2 powi e \<le> \<bar>x\<bar>" and "\<bar>x\<bar> < 2 powi (e + 1)" and "- 1022 \<le> e"
  shows "fl x = of_int (round_even (x / 2 powi (e - 52))) * 2 powi (e - 52)"
proof -
  have "x \<noteq> 0" using assms(1) by (smt (verit) zero_less_power_int abs_zero)
  moreover have "ulp_exp x = e - 52"
    using floor_log2_eq [OF assms(1,2)] assms(3) by (simp add: ulp_exp_def)
  ultimately show ?thesis by (simp add: fl_def)
qed

lemma fl_exact:
  assumes "2 powi e \<le> \<bar>x\<bar>" and "\<bar>x\<bar> < 2 powi (e + 1)" and "- 1022 \<le> e"
    and "x = of_int m * 2 powi (e - 52)"
  shows "fl x = x"
proof -
  have "x / 2 powi (e - 52) = of_int m" using assms(4) by simp
  then show ?thesis
    using fl_eval [OF assms(1,2,3)] assms(4) by (simp add: round_even_def)
qed

lemma fl_third [simp]: "fl (1 / 3) = 6004799503160661 / 18014398509481984"
  by (simp add: fl_eval [where e = "-2"] round_even_def power_int_minus field_simps)

lemma binary64_simps [simp]:
  "fnat binary64 = (\<lambda>n. to_double (real n))" "fadd binary64 = dadd" "fsub binary64 = dsub"
  "fmul binary64 = dmul" "fdiv binary64 = ddiv" "fsqrt binary64 = dsqrt"
  "flog binary64 = dlog" "fexp binary64 = dexp" "fsum binary64 = dsum" "fle binary64 = dle"
  by (simp_all add: binary64_def)

lemma dle_trans: "dle x y \<Longrightarrow> dle y z \<Longrightarrow> dle x z"
  by (cases x; cases y; cases z) simp_all

lemma dle_total: "dle x x \<Longrightarrow> dle y y \<Longrightarrow> dle x y \<or> dle y x"
  by (cases x; cases y) auto

lemma dle_refl: "dle x y \<Longrightarrow> dle x x \<and> dle y y"
  by (cases x; cases y) simp_all

lemma total_preorder_binary64: "total_preorder binary64"
  unfolding total_preorder_def binary64_simps
  using dle_trans dle_total dle_refl by blast

lemma fl_0 [simp]: "fl 0 = 0" by (simp add: fl_def)

lemma fl_1 [simp]: "fl 1 = 1"
  by (rule fl_exact [where e = 0 and m = "2 ^ 52"]) (simp_all add: power_int_minus)

lemma fl_2 [simp]: "fl 2 = 2"
  by (rule fl_exact [where e = 1 and m = "2 ^ 52"]) (simp_all add: power_int_minus)

lemma fl_3 [simp]: "fl 3 = 3"
  by (rule fl_exact [where e = 1 and m = "3 * 2 ^ 51"]) (simp_all add: power_int_minus)

lemma fl_half [simp]: "fl (1 / 2) = 1 / 2"
  by (rule fl_exact [where e = "-1" and m = "2 ^ 52"]) (simp_all add: power_int_minus)

lemma fl_m1 [simp]: "fl (- 1) = - 1"
  by (rule fl_exact [where e = 0 and m = "- (2 ^ 52)"]) (simp_all add: power_int_minus)

lemma fl_mhalf [simp]: "fl (- (1 / 2)) = - (1 / 2)"
  by (rule fl_exact [where e = "-1" and m = "- (2 ^ 52)"]) (simp_all add: power_int_minus)

lemma fl_msixth [simp]:
  "fl (- (6004799503160661 / 36028797018963968)) = - (6004799503160661 / 36028797018963968)"
  by (rule fl_exact [where e = "-3" and m = "- 6004799503160661"])
    (simp_all add: power_int_minus)

lemma fl_tie [simp]:
  "fl (12009599006321323 / 36028797018963968) = 3002399751580331 / 9007199254740992"
  by (simp add: fl_eval [where e = "-2"] round_even_def power_int_minus)


lemma fl_m4 [simp]: "fl (- 4) = - 4"
  by (rule fl_exact [where e = 2 and m = "- (2 ^ 52)"]) (simp_all add: power_int_minus)

lemma fl_m4third [simp]:
  "fl (- (6004799503160661 / 4503599627370496)) = - (6004799503160661 / 4503599627370496)"
  by (rule fl_exact [where e = 0 and m = "- 6004799503160661"])
    (simp_all add: power_int_minus)

lemma fl_R3 [simp]:
  "fl (3002399751580331 / 4503599627370496) = 3002399751580331 / 4503599627370496"
  by (rule fl_exact [where e = "-1" and m = "6004799503160662"])
    (simp_all add: power_int_minus)

lemma fl_two_thirds [simp]: "fl (2 / 3) = 6004799503160661 / 9007199254740992"
  by (simp add: fl_eval [where e = "-1"] round_even_def power_int_minus field_simps)

lemma fl_4 [simp]: "fl 4 = 4"
  by (rule fl_exact [where e = 2 and m = "2 ^ 52"]) (simp_all add: power_int_minus)




section \<open>Claims\<close>

text \<open>
  C6. For every non-empty array, \<open>argmax_rand\<close> returns an index whose value is the
  maximum of the array, and never an index whose value is below it. The index is uniform
  among the maximisers: with \<open>m\<close> the number of indices achieving the maximum, the result
  depends on the draw only through its residue modulo \<open>m\<close>, and every maximiser is the
  result for exactly one of the \<open>m\<close> residues.
\<close>

theorem argmax_rand_uniform_among_maxima:
  assumes "arr \<noteq> []"
  shows "(\<exists>i. argmax_rand arr d = Inr i \<and> i < length arr \<and> arr ! i = Max (set arr))
    \<and> (\<forall>j. j < length arr \<and> arr ! j < Max (set arr) \<longrightarrow> argmax_rand arr d \<noteq> Inr j)
    \<and> argmax_rand arr d
        = argmax_rand arr (d mod card {j. j < length arr \<and> arr ! j = Max (set arr)})
    \<and> (\<forall>i. i < length arr \<and> arr ! i = Max (set arr) \<longrightarrow>
          card {r. r < card {j. j < length arr \<and> arr ! j = Max (set arr)}
                   \<and> argmax_rand arr r = Inr i} = 1)"
proof (intro conjI allI impI)
  show "\<exists>i. argmax_rand arr d = Inr i \<and> i < length arr \<and> arr ! i = Max (set arr)"
    by (rule argmax_rand_is_max [OF assms])
next
  fix j assume "j < length arr \<and> arr ! j < Max (set arr)"
  then show "argmax_rand arr d \<noteq> Inr j"
    using argmax_rand_is_max [OF assms, of d] by auto
next
  show "argmax_rand arr d
        = argmax_rand arr (d mod card {j. j < length arr \<and> arr ! j = Max (set arr)})"
    by (simp add: argmax_rand_nth [OF assms] length_flatnonzero_eq_mask)
next
  fix i assume "i < length arr \<and> arr ! i = Max (set arr)"
  then show "card {r. r < card {j. j < length arr \<and> arr ! j = Max (set arr)}
                   \<and> argmax_rand arr r = Inr i} = 1"
    using argmax_rand_one_draw [OF assms] by blast
qed

theorem argmax_rand_uniform_among_maxima_witness:
  "[5, 5, 5, 1 :: real] \<noteq> []
   \<and> argmax_rand [5, 5, 5, 1] 7 = Inr 1
   \<and> argmax_rand [5, 5, 5, 1] 7 \<noteq> Inr 3
   \<and> card {j. j < length [5, 5, 5, 1 :: real] \<and> [5, 5, 5, 1 :: real] ! j = Max (set [5, 5, 5, 1])} = 3"
proof -
  have ne: "[5, 5, 5, 1 :: real] \<noteq> []" by simp
  have ev: "argmax_rand [5, 5, 5, 1] 7 = Inr 1"
    by (simp add: argmax_rand_def random_choice_def randint_def flatnonzero_def upt_rec)
  have "{j. j < length [5, 5, 5, 1 :: real] \<and> [5, 5, 5, 1 :: real] ! j = Max (set [5, 5, 5, 1])}
        = set (flatnonzero (map (\<lambda>x. x = Max (set [5, 5, 5, 1 :: real])) [5, 5, 5, 1]))"
    by (simp only: set_flatnonzero_eq_mask)
  also have "\<dots> = {0, Suc 0, Suc (Suc 0)}"
    by (simp add: flatnonzero_def upt_rec)
  finally have c: "card {j. j < length [5, 5, 5, 1 :: real]
      \<and> [5, 5, 5, 1 :: real] ! j = Max (set [5, 5, 5, 1])} = 3"
    by simp
  show ?thesis
    using ne ev c argmax_rand_uniform_among_maxima [OF ne, of 7] by simp
qed






text \<open>
  C3. In every arithmetic whose \<^verbatim>\<open><=\<close> is a total preorder of the numbers (that of the
  doubles and that of the reals are), and for every run of \<open>ucb_bandit\<close> that returns:
  at each step \<open>t\<close> with \<open>k \<le> t < nb\<close> the state after \<open>t\<close> steps is reached, the action
  of step \<open>t\<close> is what \<open>argmax_rand\<close> returns on the scores
  \<open>Q[a] + c * sqrt(ln(t) / N[a])\<close> of that state, and its score is at least the score of
  every action. The argument \<open>t\<close> of the logarithm is the position of the step in the whole
  history, which is the number of steps made before it, the \<open>k\<close> warm-up steps included.
\<close>

theorem ucb_selects_score_maximiser:
  assumes "total_preorder ar"
    and "ucb_bandit_fp ar e nb c rnd = (Inr (Qf, hA, hR), cs)"
    and "size_fp e = int k" and "k \<le> t" and "int t < nb"
  shows "\<exists>s. ucb_after_fp ar e nb c rnd t = (None, s)
     \<and> hist_A_fp s = take t hA \<and> hist_R_fp s = take t hR \<and> length (hist_A_fp s) = t
     \<and> length (Q_fp s) = k \<and> length (N_fp s) = k
     \<and> argmax_rand_fp ar (ucb_scores_fp ar c t s) (rnd t) = Inr (hA ! t)
     \<and> hA ! t < k
     \<and> (\<forall>a. a < k \<longrightarrow>
           fle ar (fadd ar (Q_fp s ! a)
                     (fmul ar c (fsqrt ar (fdiv ar (flog ar (fnat ar t)) (N_fp s ! a)))))
                  (fadd ar (Q_fp s ! (hA ! t))
                     (fmul ar c (fsqrt ar (fdiv ar (flog ar (fnat ar t)) (N_fp s ! (hA ! t)))))))"
proof -
  have le: "int t \<le> nb" and le': "int (Suc t) \<le> nb" and k': "k \<le> Suc t"
    using assms(4,5) by simp_all
  obtain s where s: "ucb_after_fp ar e nb c rnd t = (None, s)" "shape_fp k s"
     "hist_A_fp s = take t hA" "hist_R_fp s = take t hR" "length (hist_A_fp s) = t"
     "length hA = nat nb"
    using ucb_fp_run [OF assms(2,3,4) le] by blast
  obtain s' where s': "ucb_after_fp ar e nb c rnd (Suc t) = (None, s')"
     "hist_A_fp s' = take (Suc t) hA"
    using ucb_fp_run [OF assms(2,3) k' le'] by blast
  have st: "ucb_step_fp ar e c rnd t s = (None, s')"
    using ucb_after_fp_Suc [OF assms(3,4,5), of ar c rnd] s(1) s'(1) by simp
  obtain A where A: "argmax_rand_fp ar (ucb_scores_fp ar c t s) (rnd t) = Inr A" "A < k"
     "hist_A_fp s' = hist_A_fp s @ [A]"
    using ucb_step_fp_None [OF s(2) st] by blast
  have tl: "t < length hA" using s(6) assms(5) by simp
  have "take (Suc t) hA = take t hA @ [A]" using A(3) s(3) s'(2) by simp
  then have hA: "hA ! t = A" using tl by (simp add: take_Suc_conv_app_nth)
  have mx: "\<forall>a<length (ucb_scores_fp ar c t s).
      fle ar (ucb_scores_fp ar c t s ! a) (ucb_scores_fp ar c t s ! A)"
    using argmax_rand_fp_max [OF assms(1) A(1)] by blast
  have sc: "\<forall>a. a < k \<longrightarrow>
           fle ar (fadd ar (Q_fp s ! a)
                     (fmul ar c (fsqrt ar (fdiv ar (flog ar (fnat ar t)) (N_fp s ! a)))))
                  (fadd ar (Q_fp s ! A)
                     (fmul ar c (fsqrt ar (fdiv ar (flog ar (fnat ar t)) (N_fp s ! A)))))"
  proof (intro allI impI)
    fix a assume a: "a < k"
    have "fle ar (ucb_scores_fp ar c t s ! a) (ucb_scores_fp ar c t s ! A)"
      using mx a by (simp add: length_ucb_scores_fp [OF s(2)])
    then show "fle ar (fadd ar (Q_fp s ! a)
                     (fmul ar c (fsqrt ar (fdiv ar (flog ar (fnat ar t)) (N_fp s ! a)))))
                  (fadd ar (Q_fp s ! A)
                     (fmul ar c (fsqrt ar (fdiv ar (flog ar (fnat ar t)) (N_fp s ! A)))))"
      by (simp add: nth_ucb_scores_fp [OF s(2) a] nth_ucb_scores_fp [OF s(2) A(2)])
  qed
  have len: "length (Q_fp s) = k" "length (N_fp s) = k"
    using s(2) by (simp_all add: shape_fp_def)
  show ?thesis
    using s(1,3,4,5) len A(1,2) sc unfolding hA by blast
qed

theorem ucb_selects_score_maximiser_witness:
  "total_preorder exact
   \<and> ucb_bandit_fp exact null_env 4 1 first_draw =
       (Inr ([0, 0], [0, 1, 0, 1], [0, 0, 0, 0]), [0, 1, 0, 1])
   \<and> size_fp null_env = int 2 \<and> (2::nat) \<le> 3 \<and> int 3 < 4
   \<and> (\<exists>s. ucb_after_fp exact null_env 4 1 first_draw 3 = (None, s)
        \<and> hist_A_fp s = [0, 1, 0] \<and> Q_fp s = [0, 0] \<and> N_fp s = [2, 1]
        \<and> argmax_rand_fp exact [sqrt (ln 3 / 2), sqrt (ln 3)] (first_draw 3) = Inr 1
        \<and> sqrt (ln 3 / 2) \<le> sqrt (ln 3))"
proof -
  have sz: "size_fp null_env = int 2" by (simp add: null_env_def)
  have k: "(2::nat) \<le> 3" and lt: "int 3 < 4" by simp_all
  obtain s where h: "ucb_after_fp exact null_env 4 1 first_draw 3 = (None, s)"
    "argmax_rand_fp exact (ucb_scores_fp exact 1 3 s) (first_draw 3) = Inr ([0, 1, 0, 1] ! 3)"
    "\<forall>a. a < 2 \<longrightarrow>
           fle exact (fadd exact (Q_fp s ! a)
                     (fmul exact 1 (fsqrt exact (fdiv exact (flog exact (fnat exact 3)) (N_fp s ! a)))))
                  (fadd exact (Q_fp s ! ([0, 1, 0, 1] ! 3))
                     (fmul exact 1 (fsqrt exact (fdiv exact (flog exact (fnat exact 3)) (N_fp s ! ([0, 1, 0, 1] ! 3))))))"
    using ucb_selects_score_maximiser [OF total_preorder_exact ucb_bandit_fp_null_4 sz k lt]
    by blast
  have s: "s = \<lparr>hist_A_fp = [0, 1, 0], hist_R_fp = [0, 0, 0], calls_fp = [0, 1, 0],
             Q_fp = [0, 0], N_fp = [2, 1]\<rparr>"
    using h(1) ucb_after_fp_null_3 by simp
  have a: "argmax_rand_fp exact [sqrt (ln 3 / 2), sqrt (ln 3)] (first_draw 3) = Inr 1"
    using h(2) by (simp add: s ucb_scores_fp_def)
  have i: "sqrt (ln 3 / 2) \<le> sqrt (ln 3)"
    using h(3) [rule_format, of 0] by (simp add: s)
  show ?thesis
    using total_preorder_exact ucb_bandit_fp_null_4 sz k lt h(1) s a i by simp
qed

text \<open>
  C4. In every arithmetic and for every run of \<open>gradient_bandit\<close> that returns, step
  \<open>t < nb\<close> takes the state after \<open>t\<close> steps to the state after \<open>t + 1\<close> steps as
  follows. \<open>ps\<close> is \<open>softmax(H)\<close> for the preferences \<open>H\<close> before the step, the action
  \<open>A\<close> is chosen with \<open>ps\<close>, and every new preference is computed from \<open>H\<close>, \<open>ps\<close>, the
  reward \<open>R\<close> and the baseline \<open>b\<close> before the step: \<open>H[A] + alpha * (R - b) * (1 - ps[A])\<close>
  for the chosen action, \<open>H[a] - alpha * (R - b) * ps[a]\<close> for every other one. \<open>b\<close> is
  the running \<^verbatim>\<open>R_\<close>, which is 0 before and after every step when \<open>baseline\<close> is off,
  and is updated by \<open>1/N_ * (R - R_)\<close> after the preferences when it is on.
\<close>

theorem gradient_update_from_snapshot:
  assumes "gradient_bandit_fp ar choice e nb alpha baseline rnd = (Inr (Hf, hA, hR), cs)"
    and "size_fp e = int k" and "int t < nb"
  shows "\<exists>s s' ps. gradient_after_fp ar choice e nb alpha baseline rnd t = (None, s)
     \<and> gradient_after_fp ar choice e nb alpha baseline rnd (Suc t) = (None, s')
     \<and> hist_A_fp s = take t hA \<and> hist_R_fp s = take t hR \<and> length (hist_A_fp s) = t
     \<and> length (H_fp s) = k \<and> length (H_fp s') = k \<and> length ps = k
     \<and> softmax_fp ar (H_fp s) = Inr ps
     \<and> choice k ps (rnd t) = Inr (hA ! t) \<and> hA ! t < k
     \<and> hR ! t = reward_fp e t (hA ! t)
     \<and> (\<forall>a. a < k \<longrightarrow> H_fp s' ! a =
           (if a = hA ! t
            then fadd ar (H_fp s ! a)
                   (fmul ar (fmul ar alpha (fsub ar (hR ! t) (R_bar_fp s)))
                      (fsub ar (fnat ar 1) (ps ! a)))
            else fsub ar (H_fp s ! a)
                   (fmul ar (fmul ar alpha (fsub ar (hR ! t) (R_bar_fp s))) (ps ! a))))
     \<and> (\<not> baseline \<longrightarrow> R_bar_fp s = fnat ar 0 \<and> R_bar_fp s' = fnat ar 0)
     \<and> (baseline \<longrightarrow>
           N_bar_fp s' = fadd ar (N_bar_fp s) (fnat ar 1)
           \<and> R_bar_fp s' = fadd ar (R_bar_fp s)
                (fmul ar (fdiv ar (fnat ar 1) (N_bar_fp s')) (fsub ar (hR ! t) (R_bar_fp s))))
     \<and> (t = 0 \<longrightarrow> R_bar_fp s = fnat ar 0 \<and> N_bar_fp s = fnat ar 0
           \<and> H_fp s = replicate k (fnat ar 0))
     \<and> (Suc t = nat nb \<longrightarrow> H_fp s' = Hf)"
proof -
  have le: "int t \<le> nb" and le': "int (Suc t) \<le> nb" using assms(3) by simp_all
  obtain s where s: "gradient_after_fp ar choice e nb alpha baseline rnd t = (None, s)"
     "gshape_fp k s" "hist_A_fp s = take t hA" "hist_R_fp s = take t hR"
     "length (hist_A_fp s) = t" "length hA = nat nb" "length hR = nat nb"
     "t = 0 \<longrightarrow> R_bar_fp s = fnat ar 0 \<and> N_bar_fp s = fnat ar 0
           \<and> H_fp s = replicate k (fnat ar 0)"
    using gradient_fp_run [OF assms(1,2) le] by blast
  obtain s' where s': "gradient_after_fp ar choice e nb alpha baseline rnd (Suc t) = (None, s')"
     "gshape_fp k s'" "hist_A_fp s' = take (Suc t) hA" "hist_R_fp s' = take (Suc t) hR"
     "Suc t = nat nb \<longrightarrow> H_fp s' = Hf"
    using gradient_fp_run [OF assms(1,2) le'] by blast
  have st: "gradient_step_fp ar choice e alpha baseline rnd t s = (None, s')"
    using gradient_after_fp_Suc [OF assms(3), of ar choice e alpha baseline rnd] s(1) s'(1)
    by simp
  obtain ps A where pa: "softmax_fp ar (H_fp s) = Inr ps"
     "choice (nat (size_fp e)) ps (rnd t) = Inr A" "A < length (H_fp s)"
     and eq: "s' = s\<lparr>hist_A_fp := hist_A_fp s @ [A],
               hist_R_fp := hist_R_fp s @ [reward_fp e (length (calls_fp s)) A],
               calls_fp := calls_fp s @ [A],
               H_fp := (map2 (\<lambda>h p. fsub ar h
                           (fmul ar (fmul ar alpha
                              (fsub ar (reward_fp e (length (calls_fp s)) A) (R_bar_fp s))) p))
                         (H_fp s) ps)
                      [A := fadd ar (H_fp s ! A)
                         (fmul ar (fmul ar alpha
                            (fsub ar (reward_fp e (length (calls_fp s)) A) (R_bar_fp s)))
                            (fsub ar (fnat ar 1) (ps ! A)))],
               R_bar_fp := (if baseline
                         then fadd ar (R_bar_fp s)
                           (fmul ar (fdiv ar (fnat ar 1) (fadd ar (N_bar_fp s) (fnat ar 1)))
                              (fsub ar (reward_fp e (length (calls_fp s)) A) (R_bar_fp s)))
                         else R_bar_fp s),
               N_bar_fp := (if baseline then fadd ar (N_bar_fp s) (fnat ar 1)
                            else N_bar_fp s)\<rparr>"
    using gradient_step_fp_None [OF st] by blast
  have lH: "length (H_fp s) = k" and cl: "length (calls_fp s) = t"
    using s(2,5) by (simp_all add: gshape_fp_def)
  have lH': "length (H_fp s') = k" using s'(2) by (simp add: gshape_fp_def)
  have lp: "length ps = k" using softmax_fp_length [OF pa(1)] lH by simp
  have tl: "t < length hA" "t < length hR" using s(6,7) assms(3) by simp_all
  have "take (Suc t) hA = take t hA @ [A]" using s(3) s'(3) by (simp add: eq)
  then have A: "hA ! t = A" using tl(1) by (simp add: take_Suc_conv_app_nth)
  have "take (Suc t) hR = take t hR @ [reward_fp e t A]"
    using s(4) s'(4) cl by (simp add: eq)
  then have R: "hR ! t = reward_fp e t A" using tl(2) by (simp add: take_Suc_conv_app_nth)
  have ch: "choice k ps (rnd t) = Inr A" using pa(2) assms(2) by simp
  have Ak: "A < k" using pa(3) lH by simp
  have up: "\<forall>a. a < k \<longrightarrow> H_fp s' ! a =
           (if a = A
            then fadd ar (H_fp s ! a)
                   (fmul ar (fmul ar alpha (fsub ar (reward_fp e t A) (R_bar_fp s)))
                      (fsub ar (fnat ar 1) (ps ! a)))
            else fsub ar (H_fp s ! a)
                   (fmul ar (fmul ar alpha (fsub ar (reward_fp e t A) (R_bar_fp s))) (ps ! a)))"
    using lH lp cl by (simp add: eq)
  have nb0: "\<not> baseline \<longrightarrow> R_bar_fp s = fnat ar 0"
  proof
    assume nb: "\<not> baseline"
    let ?P = "\<lambda>s. R_bar_fp s = fnat ar 0"
    have i0: "?P (init_grad_fp ar (replicate (nat (size_fp e)) (fnat ar 0)))"
      by (simp add: init_grad_fp_def)
    show "R_bar_fp s = fnat ar 0"
    proof (rule for_loop_invariant_None [where P = ?P, OF i0 _ s(1) [unfolded gradient_after_fp_def]])
      fix i u u'
      assume p: "R_bar_fp u = fnat ar 0"
        and b: "gradient_step_fp ar choice e alpha baseline rnd i u = (None, u')"
      show "R_bar_fp u' = fnat ar 0"
        using gradient_step_fp_None [OF b] p nb by auto
    qed
  qed
  have nb1: "\<not> baseline \<longrightarrow> R_bar_fp s' = fnat ar 0"
    using nb0 by (simp add: eq)
  have bl: "baseline \<longrightarrow>
           N_bar_fp s' = fadd ar (N_bar_fp s) (fnat ar 1)
           \<and> R_bar_fp s' = fadd ar (R_bar_fp s)
                (fmul ar (fdiv ar (fnat ar 1) (N_bar_fp s')) (fsub ar (reward_fp e t A) (R_bar_fp s)))"
    using cl by (simp add: eq)
  show ?thesis
    using s(1,3,4,5,8) s'(1,5) lH lH' lp pa(1) ch Ak up nb0 nb1 bl
    unfolding A R by blast
qed

theorem gradient_update_from_snapshot_witness:
  "gradient_bandit_fp exact choice_p ramp_env_fp 2 (1/10) True first_draw =
     (Inr ([1/20 + 1/10 * (2 - 1) * (1 - 1 / (1 + exp (- 1/20 - 1/20))),
            - 1/20 - 1/10 * (2 - 1) * (exp (- 1/20 - 1/20) / (1 + exp (- 1/20 - 1/20)))],
           [0, 0], [1, 2]), [0, 0])
   \<and> size_fp ramp_env_fp = int 2 \<and> int (Suc 0) < 2
   \<and> (\<exists>s s' ps.
        gradient_after_fp exact choice_p ramp_env_fp 2 (1/10) True first_draw (Suc 0) = (None, s)
      \<and> gradient_after_fp exact choice_p ramp_env_fp 2 (1/10) True first_draw (Suc (Suc 0))
           = (None, s')
      \<and> hist_A_fp s = [0] \<and> hist_R_fp s = [1] \<and> R_bar_fp s = 1 \<and> H_fp s = [1/20, -1/20]
      \<and> softmax_fp exact [1/20, -1/20] = Inr ps
      \<and> choice_p 2 ps (first_draw (Suc 0)) = Inr 0
      \<and> H_fp s' ! 0 = 1/20 + 1/10 * (2 - 1) * (1 - ps ! 0)
      \<and> H_fp s' ! 1 = - 1/20 - 1/10 * (2 - 1) * ps ! 1
      \<and> R_bar_fp s' = 1 + 1 / 2 * (2 - 1)
      \<and> H_fp s' = [1/20 + 1/10 * (2 - 1) * (1 - 1 / (1 + exp (- 1/20 - 1/20))),
            - 1/20 - 1/10 * (2 - 1) * (exp (- 1/20 - 1/20) / (1 + exp (- 1/20 - 1/20)))])"
proof -
  have sz: "size_fp ramp_env_fp = int 2" by (simp add: ramp_env_fp_def)
  have lt: "int (Suc 0) < 2" by simp
  obtain s s' ps where h:
    "gradient_after_fp exact choice_p ramp_env_fp 2 (1/10) True first_draw (Suc 0) = (None, s)"
    "gradient_after_fp exact choice_p ramp_env_fp 2 (1/10) True first_draw (Suc (Suc 0))
       = (None, s')"
    "hist_A_fp s = take (Suc 0) [0, 0]" "hist_R_fp s = take (Suc 0) [1, 2]"
    "softmax_fp exact (H_fp s) = Inr ps"
    "choice_p 2 ps (first_draw (Suc 0)) = Inr ([0, 0] ! Suc 0)"
    "\<forall>a. a < 2 \<longrightarrow> H_fp s' ! a =
           (if a = [0, 0] ! Suc 0
            then fadd exact (H_fp s ! a)
                   (fmul exact (fmul exact (1/10) (fsub exact ([1, 2] ! Suc 0) (R_bar_fp s)))
                      (fsub exact (fnat exact 1) (ps ! a)))
            else fsub exact (H_fp s ! a)
                   (fmul exact (fmul exact (1/10) (fsub exact ([1, 2] ! Suc 0) (R_bar_fp s))) (ps ! a)))"
    "True \<longrightarrow>
           N_bar_fp s' = fadd exact (N_bar_fp s) (fnat exact 1)
           \<and> R_bar_fp s' = fadd exact (R_bar_fp s)
                (fmul exact (fdiv exact (fnat exact 1) (N_bar_fp s')) (fsub exact ([1, 2] ! Suc 0) (R_bar_fp s)))"
    "Suc (Suc 0) = nat 2 \<longrightarrow> H_fp s' =
        [1/20 + 1/10 * (2 - 1) * (1 - 1 / (1 + exp (- 1/20 - 1/20))),
            - 1/20 - 1/10 * (2 - 1) * (exp (- 1/20 - 1/20) / (1 + exp (- 1/20 - 1/20)))]"
    using gradient_update_from_snapshot [OF gradient_bandit_fp_ramp_2 sz lt] by blast
  have s: "s = \<lparr>hist_A_fp = [0], hist_R_fp = [1], calls_fp = [0], H_fp = [1/20, -1/20],
             R_bar_fp = 1, N_bar_fp = 1\<rparr>"
    using h(1) gradient_after_fp_ramp_1 by simp
  have u0: "H_fp s' ! 0 = 1/20 + 1/10 * (2 - 1) * (1 - ps ! 0)"
    using h(7) [rule_format, of 0] by (simp add: s)
  have u1: "H_fp s' ! 1 = - 1/20 - 1/10 * (2 - 1) * ps ! 1"
    using h(7) [rule_format, of 1] by (simp add: s)
  have rb: "R_bar_fp s' = 1 + 1 / 2 * (2 - 1)"
    using h(8) by (simp add: s)
  have hf: "H_fp s' = [1/20 + 1/10 * (2 - 1) * (1 - 1 / (1 + exp (- 1/20 - 1/20))),
            - 1/20 - 1/10 * (2 - 1) * (exp (- 1/20 - 1/20) / (1 + exp (- 1/20 - 1/20)))]"
    using h(9) by simp
  have sm: "softmax_fp exact [1/20, -1/20] = Inr ps" using h(5) by (simp add: s)
  have ch: "choice_p 2 ps (first_draw (Suc 0)) = Inr 0" using h(6) by simp
  have "\<exists>s s' ps.
        gradient_after_fp exact choice_p ramp_env_fp 2 (1/10) True first_draw (Suc 0) = (None, s)
      \<and> gradient_after_fp exact choice_p ramp_env_fp 2 (1/10) True first_draw (Suc (Suc 0))
           = (None, s')
      \<and> hist_A_fp s = [0] \<and> hist_R_fp s = [1] \<and> R_bar_fp s = 1 \<and> H_fp s = [1/20, -1/20]
      \<and> softmax_fp exact [1/20, -1/20] = Inr ps
      \<and> choice_p 2 ps (first_draw (Suc 0)) = Inr 0
      \<and> H_fp s' ! 0 = 1/20 + 1/10 * (2 - 1) * (1 - ps ! 0)
      \<and> H_fp s' ! 1 = - 1/20 - 1/10 * (2 - 1) * ps ! 1
      \<and> R_bar_fp s' = 1 + 1 / 2 * (2 - 1)
      \<and> H_fp s' = [1/20 + 1/10 * (2 - 1) * (1 - 1 / (1 + exp (- 1/20 - 1/20))),
            - 1/20 - 1/10 * (2 - 1) * (exp (- 1/20 - 1/20) / (1 + exp (- 1/20 - 1/20)))]"
    using h(1,2) s u0 u1 rb hf sm ch by (intro exI [of _ s] exI [of _ s'] exI [of _ ps]) simp
  then show ?thesis using gradient_bandit_fp_ramp_2 sz lt by blast
qed






text \<open>
  C10. In exact arithmetic the preferences of \<open>gradient_bandit\<close> add up to 0 in every
  state of a run and in the returned vector: with \<open>ps = softmax(x)\<close>, which adds up to 1,
  the increment \<open>d * (1 - ps[A])\<close> of the chosen action is the total \<open>d * ps[a]\<close>
  taken from the other actions.
\<close>

theorem gradient_preferences_sum_zero:
  "(gradient_after e nb alpha baseline rnd t = (r, s) \<longrightarrow> sum_list (H s) = 0)
   \<and> (gradient_bandit e nb alpha baseline rnd = (Inr (Hf, hA, hR), cs) \<longrightarrow> sum_list Hf = 0)
   \<and> (softmax x = Inr ps \<and> A < length ps \<longrightarrow>
        d * (1 - ps ! A) = sum_list (map (\<lambda>a. d * ps ! a) (filter (\<lambda>a. a \<noteq> A) [0..<length ps])))"
proof -
  have p1: "sum_list (H s) = 0" if "gradient_after e nb alpha baseline rnd t = (r, s)" for t r s
    using gradient_after_grad_inv [OF that] by (simp add: grad_inv_def)
  have p2: "sum_list Hf = 0" if h: "gradient_bandit e nb alpha baseline rnd = (Inr (Hf, hA, hR), cs)"
  proof -
    have k: "0 \<le> size_env e"
      using h gradient_bandit_negative [of e nb alpha baseline rnd]
      by (cases "0 \<le> size_env e") auto
    obtain r s where f: "gradient_after e nb alpha baseline rnd (nat nb) = (r, s)"
      by (cases "gradient_after e nb alpha baseline rnd (nat nb)")
    have "H s = Hf"
      using h f by (cases r) (simp_all add: gradient_bandit_after [OF k])
    then show ?thesis using p1 [OF f] by simp
  qed
  have p3: "d * (1 - ps ! A) = sum_list (map (\<lambda>a. d * ps ! a) (filter (\<lambda>a. a \<noteq> A) [0..<length ps]))"
    if h: "softmax x = Inr ps \<and> A < length ps"
  proof -
    have sm: "sum_list ps = 1" using softmax_sum [of x ps] h by simp
    have "sum_list (map (\<lambda>a. d * ps ! a) (filter (\<lambda>a. a \<noteq> A) [0..<length ps]))
          = d * sum_list ps - d * ps ! A"
      using sum_list_others [of A "length ps" "\<lambda>a. d * ps ! a"] h
      by (simp add: sum_list_nth_upt)
    then show ?thesis by (simp add: sm algebra_simps)
  qed
  show ?thesis using p1 p2 p3 by blast
qed

theorem gradient_preferences_sum_zero_witness:
  "gradient_after stub_env 1 (1/10) True first_draw 1 =
     (None, \<lparr>hist_A = [0], hist_R = [1], calls = [0], H = [1/20, -1/20], R_bar = 1, N_bar = 1\<rparr>)
   \<and> gradient_bandit stub_env 1 (1/10) True first_draw = (Inr ([1/20, -1/20], [0], [1]), [0])
   \<and> sum_list [1/20, -1/20 :: real] = 0
   \<and> softmax [0, 0] = Inr [1/2, 1/2] \<and> (0::nat) < length [1/2, 1/2 :: real]"
proof -
  have a: "gradient_after stub_env 1 (1/10) True first_draw 1 =
     (None, \<lparr>hist_A = [0], hist_R = [1], calls = [0], H = [1/20, -1/20], R_bar = 1, N_bar = 1\<rparr>)"
    by (simp add: gev)
  show ?thesis
    using a gradient_bandit_stub_1 softmax_stub_0
      gradient_preferences_sum_zero [where e = stub_env and nb = 1 and alpha = "1/10"
        and baseline = True and rnd = first_draw and t = 1 and r = None and Hf = "[1/20, -1/20]"
        and hA = "[0]" and hR = "[1]" and cs = "[0]" and x = "[0, 0]" and ps = "[1/2, 1/2]"
        and A = 0 and d = 1 and s =
        "\<lparr>hist_A = [0], hist_R = [1], calls = [0], H = [1/20, -1/20], R_bar = 1, N_bar = 1\<rparr>"]
    by simp
qed

text \<open>
  C2, as the code has it. The selectors do not validate their configuration. A run raises
  (numpy's ValueError, before any call of \<^verbatim>\<open>env.step\<close> and with no history) when
  \<open>env.size < 0\<close>, or \<open>env.size = 0\<close> and \<open>nb > 0\<close>. With \<open>env.size \<ge> 0\<close> and \<open>nb \<le> 0\<close>,
  \<open>gradient_bandit\<close> returns the zero preferences and empty histories without a call of
  \<^verbatim>\<open>env.step\<close>. With \<open>nb \<le> k = env.size\<close>, \<open>ucb_bandit\<close> makes its \<open>k\<close> warm-up steps
  and returns histories of length \<open>k\<close>.
\<close>

theorem configuration_is_not_validated:
  "(size_env e < 0 \<or> (size_env e = 0 \<and> 0 < nb) \<longrightarrow>
      ucb_bandit e nb c rnd = (Inl ValueError, [])
      \<and> gradient_bandit e nb alpha baseline rnd = (Inl ValueError, []))
   \<and> (0 \<le> size_env e \<and> nb \<le> 0 \<longrightarrow>
      gradient_bandit e nb alpha baseline rnd = (Inr (replicate (nat (size_env e)) 0, [], []), []))
   \<and> (size_env e = int k \<and> nb \<le> int k \<longrightarrow>
      ucb_bandit e nb c rnd =
        (Inr (map (\<lambda>a. reward e a a) [0..<k], [0..<k], map (\<lambda>a. reward e a a) [0..<k]), [0..<k]))"
proof -
  have p1: "ucb_bandit e nb c rnd = (Inl ValueError, [])
      \<and> gradient_bandit e nb alpha baseline rnd = (Inl ValueError, [])"
    if h: "size_env e < 0 \<or> (size_env e = 0 \<and> 0 < nb)"
    using h ucb_bandit_negative [of e nb c rnd] gradient_bandit_negative [of e nb alpha baseline rnd]
      ucb_bandit_zero_actions [of e nb c rnd]
      gradient_bandit_zero_actions [of e nb alpha baseline rnd]
    by auto
  have p2: "gradient_bandit e nb alpha baseline rnd = (Inr (replicate (nat (size_env e)) 0, [], []), [])"
    if h: "0 \<le> size_env e \<and> nb \<le> 0"
    using h gradient_bandit_no_steps by simp
  have p3: "ucb_bandit e nb c rnd =
        (Inr (map (\<lambda>a. reward e a a) [0..<k], [0..<k], map (\<lambda>a. reward e a a) [0..<k]), [0..<k])"
    if h: "size_env e = int k \<and> nb \<le> int k"
    using h ucb_bandit_short_budget by simp
  show ?thesis using p1 p2 p3 by blast
qed

theorem configuration_is_not_validated_witness:
  "size_env stub_env = int 2 \<and> 1 \<le> int 2 \<and> 0 \<le> size_env stub_env \<and> (- 1 :: int) \<le> 0
   \<and> ucb_bandit stub_env 1 2 first_draw = (Inr ([1, 0], [0, 1], [1, 0]), [0, 1])
   \<and> gradient_bandit stub_env (- 1) (1/10) True first_draw = (Inr ([0, 0], [], []), [])
   \<and> size_env (stub_env\<lparr>size_env := 0\<rparr>) = 0 \<and> (0::int) < 3
   \<and> ucb_bandit (stub_env\<lparr>size_env := 0\<rparr>) 3 2 first_draw = (Inl ValueError, [])"
proof -
  have a: "ucb_bandit stub_env 1 2 first_draw = (Inr ([1, 0], [0, 1], [1, 0]), [0, 1])"
    using configuration_is_not_validated [where e = stub_env and nb = 1 and c = 2
        and rnd = first_draw and k = 2 and alpha = "1/10" and baseline = True]
    by (simp add: stub_env_def upt_rec numeral_2_eq_2)
  have b: "gradient_bandit stub_env (- 1) (1/10) True first_draw = (Inr ([0, 0], [], []), [])"
    using configuration_is_not_validated [where e = stub_env and nb = "- 1" and c = 2
        and rnd = first_draw and k = 2 and alpha = "1/10" and baseline = True]
    by (simp add: stub_env_def numeral_2_eq_2)
  have c: "ucb_bandit (stub_env\<lparr>size_env := 0\<rparr>) 3 2 first_draw = (Inl ValueError, [])"
    using configuration_is_not_validated [where e = "stub_env\<lparr>size_env := 0\<rparr>" and nb = 3
        and c = 2 and rnd = first_draw and k = 0 and alpha = "1/10" and baseline = True]
    by simp
  show ?thesis using a b c by (simp add: stub_env_def)
qed

text \<open>
  C2 as stated fails: with two actions and \<open>nb = 1\<close>, \<open>ucb_bandit\<close> signals nothing,
  calls \<^verbatim>\<open>env.step\<close> twice and returns two history entries; with \<open>nb = -1\<close>,
  \<open>gradient_bandit\<close> returns normally.
\<close>

theorem configuration_error_counterexample:
  "ucb_bandit stub_env 1 2 first_draw = (Inr ([1, 0], [0, 1], [1, 0]), [0, 1])
   \<and> gradient_bandit stub_env (- 1) (1/10) True first_draw = (Inr ([0, 0], [], []), [])"
  by (simp add: ev gev)

end
